theory Spec2Isabelle
  imports Complex_Main "HOL-Library.Code_Target_Nat"
begin

unbundle bit_operations_syntax

section \<open>Data model\<close>

text \<open>
  A module of the symbol during construction.  The Python matrices hold the integers
  0 and 1, the string \<open>'R'\<close> for a reserved format cell and \<open>None\<close> for a cell that
  was not set yet (type alias \<open>QRMatrix = List[List[Union[int, str, None]]]\<close>).
\<close>

datatype cell = IntC int | StrR | NoneC

type_synonym qr_matrix = "cell list list"

text \<open>
  The exceptions the modelled functions can raise, one constructor for each
  \<open>raise\<close> of the source and one for Python's own \<open>IndexError\<close>:
  \<^item> \<open>InvalidCharacter\<close>: \<open>ValueError("Data contains characters outside ISO-8859-1.")\<close>
  \<^item> \<open>PayloadTooLong\<close>: \<open>ValueError("Input too long for Version 2 L (max 32 bytes).")\<close>
  \<^item> \<open>MaskIdRange\<close>: \<open>ValueError("Mask ID must be 0-7.")\<close>
  \<^item> \<open>DimensionMismatch\<close>: \<open>ValueError("Dimension mismatch or empty matrix/function_map.")\<close>
  \<^item> \<open>UnsupportedVersion\<close>: the \<open>ValueError\<close>s of \<open>generate_error_correction\<close>,
    \<open>get_size_from_version\<close> and \<open>get_expected_bitstream_length_for_version\<close>
  \<^item> \<open>InvalidSize\<close>: the \<open>ValueError\<close> of \<open>get_version_from_size\<close>
  \<^item> \<open>BadDigit\<close>: the \<open>ValueError\<close> of \<open>int(s)\<close> on a character that is no digit
  \<^item> \<open>TypeError\<close>: Python's \<open>TypeError\<close>, for \<open>len(None)\<close>
\<close>

datatype error =
  InvalidCharacter | PayloadTooLong | MaskIdRange | DimensionMismatch
  | UnsupportedVersion | InvalidSize | BadDigit | IndexError | TypeError

definition ebind :: "error + 'a \<Rightarrow> ('a \<Rightarrow> error + 'b) \<Rightarrow> error + 'b" where
  "ebind m f = (case m of Inl e \<Rightarrow> Inl e | Inr x \<Rightarrow> f x)"

text \<open>A \<open>for x in xs\<close> loop over a state, stopping at the first exception.\<close>

fun fold_err :: "('a \<Rightarrow> 's \<Rightarrow> error + 's) \<Rightarrow> 'a list \<Rightarrow> 's \<Rightarrow> error + 's" where
  "fold_err f [] s = Inr s"
| "fold_err f (x # xs) s = ebind (f x s) (fold_err f xs)"

text \<open>A list comprehension \<open>[f(x) for x in xs]\<close> whose \<open>f\<close> can raise.\<close>

fun map_err :: "('a \<Rightarrow> error + 'b) \<Rightarrow> 'a list \<Rightarrow> error + 'b list" where
  "map_err f [] = Inr []"
| "map_err f (x # xs) = ebind (f x) (\<lambda>y. ebind (map_err f xs) (\<lambda>ys. Inr (y # ys)))"

text \<open>\<open>xs[i]\<close> for an index that a \<open>range\<close> loop produced (never negative).\<close>

definition nth_err :: "'a list \<Rightarrow> nat \<Rightarrow> error + 'a" where
  "nth_err xs i = (if i < length xs then Inr (xs ! i) else Inl IndexError)"

text \<open>
  \<open>xs[i]\<close> and \<open>xs[i] = v\<close> for a computed index: a negative index counts from the
  end, and an index out of range raises \<open>IndexError\<close>.
\<close>

definition py_index :: "'a list \<Rightarrow> int \<Rightarrow> error + nat" where
  "py_index xs i =
     (let n = int (length xs); j = (if i < 0 then n + i else i)
      in if 0 \<le> j \<and> j < n then Inr (nat j) else Inl IndexError)"

definition get_item :: "'a list \<Rightarrow> int \<Rightarrow> error + 'a" where
  "get_item xs i = ebind (py_index xs i) (\<lambda>j. Inr (xs ! j))"

definition set_item :: "'a list \<Rightarrow> int \<Rightarrow> 'a \<Rightarrow> error + 'a list" where
  "set_item xs i v = ebind (py_index xs i) (\<lambda>j. Inr (xs[j := v]))"

text \<open>\<open>matrix[r][c] = v\<close>: the row is read first, then written at \<open>c\<close>.\<close>

definition set_cell :: "'a list list \<Rightarrow> int \<Rightarrow> int \<Rightarrow> 'a \<Rightarrow> error + 'a list list" where
  "set_cell m r c v =
     ebind (py_index m r) (\<lambda>i.
     ebind (set_item (m ! i) c v) (\<lambda>row. Inr (m[i := row])))"

definition get_cell :: "'a list list \<Rightarrow> int \<Rightarrow> int \<Rightarrow> error + 'a" where
  "get_cell m r c = ebind (get_item m r) (\<lambda>row. get_item row c)"

section \<open>matrix\_masking: the mask patterns\<close>

definition should_mask_pattern_0 :: "nat \<Rightarrow> nat \<Rightarrow> bool" where
  "should_mask_pattern_0 r c = ((r + c) mod 2 = 0)"

definition should_mask_pattern_1 :: "nat \<Rightarrow> nat \<Rightarrow> bool" where
  "should_mask_pattern_1 r c = (r mod 2 = 0)"

definition should_mask_pattern_2 :: "nat \<Rightarrow> nat \<Rightarrow> bool" where
  "should_mask_pattern_2 r c = (c mod 3 = 0)"

definition should_mask_pattern_3 :: "nat \<Rightarrow> nat \<Rightarrow> bool" where
  "should_mask_pattern_3 r c = ((r + c) mod 3 = 0)"

text \<open>
  \<open>math.floor(r / 2)\<close> divides in double precision and rounds down; on the row and
  column indices of a list this is the integer quotient.
\<close>

definition should_mask_pattern_4 :: "nat \<Rightarrow> nat \<Rightarrow> bool" where
  "should_mask_pattern_4 r c = ((r div 2 + c div 3) mod 2 = 0)"

definition should_mask_pattern_5 :: "nat \<Rightarrow> nat \<Rightarrow> bool" where
  "should_mask_pattern_5 r c = ((r * c) mod 2 + (r * c) mod 3 = 0)"

definition should_mask_pattern_6 :: "nat \<Rightarrow> nat \<Rightarrow> bool" where
  "should_mask_pattern_6 r c = (((r * c) mod 2 + (r * c) mod 3) mod 2 = 0)"

definition should_mask_pattern_7 :: "nat \<Rightarrow> nat \<Rightarrow> bool" where
  "should_mask_pattern_7 r c = (((r + c) mod 2 + (r * c) mod 3) mod 2 = 0)"

text \<open>The dictionary from pattern ids to condition functions.\<close>

definition MASK_CONDITION_FUNCTIONS :: "int \<rightharpoonup> (nat \<Rightarrow> nat \<Rightarrow> bool)" where
  "MASK_CONDITION_FUNCTIONS =
     [0 \<mapsto> should_mask_pattern_0, 1 \<mapsto> should_mask_pattern_1,
      2 \<mapsto> should_mask_pattern_2, 3 \<mapsto> should_mask_pattern_3,
      4 \<mapsto> should_mask_pattern_4, 5 \<mapsto> should_mask_pattern_5,
      6 \<mapsto> should_mask_pattern_6, 7 \<mapsto> should_mask_pattern_7]"

text \<open>
  The body of the two nested loops of \<open>apply_specific_mask_pattern\<close>:
  \<^verbatim>\<open>
  if not function_map[r][c] and isinstance(out_matrix[r][c], int):
      if mask_func(r, c):
          out_matrix[r][c] ^= 1
  \<close>
  \<open>function_map[r][c]\<close> is read first; the cell of the matrix is read only when the
  map is false there.
\<close>

definition mask_cell ::
  "(nat \<Rightarrow> nat \<Rightarrow> bool) \<Rightarrow> bool list list \<Rightarrow> nat \<Rightarrow> nat \<Rightarrow> qr_matrix \<Rightarrow> error + qr_matrix" where
  "mask_cell mask_func function_map r c out_matrix =
     ebind (nth_err function_map r) (\<lambda>frow.
     ebind (nth_err frow c) (\<lambda>is_function.
       if is_function then Inr out_matrix
       else
         ebind (nth_err out_matrix r) (\<lambda>row.
         ebind (nth_err row c) (\<lambda>v.
           case v of
             IntC x \<Rightarrow>
               if mask_func r c then Inr (out_matrix[r := row[c := IntC (x XOR 1)]])
               else Inr out_matrix
           | _ \<Rightarrow> Inr out_matrix))))"

definition apply_specific_mask_pattern ::
  "int \<Rightarrow> qr_matrix \<Rightarrow> bool list list \<Rightarrow> error + qr_matrix" where
  "apply_specific_mask_pattern pattern_id matrix function_map =
     (if \<not> (0 \<le> pattern_id \<and> pattern_id \<le> 7) then Inl MaskIdRange
      else
        let rows = length matrix;
            cols = (if matrix \<noteq> [] \<and> hd matrix \<noteq> [] then length (hd matrix) else 0)
        in
          if matrix = [] \<or> length function_map \<noteq> rows
             \<or> (0 < cols \<and> cols \<noteq> length (hd function_map))
          then Inl DimensionMismatch
          else
            (case MASK_CONDITION_FUNCTIONS pattern_id of
               None \<Rightarrow> Inl MaskIdRange
             | Some mask_func \<Rightarrow>
                 fold_err
                   (\<lambda>r. fold_err (\<lambda>c. mask_cell mask_func function_map r c) [0..<cols])
                   [0..<rows] matrix))"

section \<open>data\_encoding: the byte-mode encoder\<close>

text \<open>
  A Python \<open>str\<close> is a sequence of Unicode code points; it is modelled as the list of
  their numbers.  \<open>data.encode('iso-8859-1', errors='strict')\<close> yields one byte per
  character, the code point itself, and raises \<open>UnicodeEncodeError\<close> when a code point
  is above 255 (\<open>None\<close> here).
\<close>

type_synonym py_str = "nat list"

definition encode_iso_8859_1 :: "py_str \<Rightarrow> nat list option" where
  "encode_iso_8859_1 data = (if list_all (\<lambda>c. c \<le> 255) data then Some data else None)"

text \<open>
  \<open>format(n, 'b')\<close>, the binary digits of \<open>n\<close> without leading zeros, and
  \<open>format(n, '0wb')\<close>, the same padded with zeros on the left to at least \<open>w\<close>
  characters.
\<close>

definition bit_char :: "nat \<Rightarrow> char" where
  "bit_char d = (if d = 0 then CHR ''0'' else CHR ''1'')"

fun format_b :: "nat \<Rightarrow> string" where
  "format_b n = (if n < 2 then [bit_char n] else format_b (n div 2) @ [bit_char (n mod 2)])"

declare format_b.simps [simp del]

definition format_0b :: "nat \<Rightarrow> nat \<Rightarrow> string" where
  "format_0b w n = (let s = format_b n in replicate (w - length s) CHR ''0'' @ s)"

definition pad_bytes :: "string list" where
  "pad_bytes = [''11101100'', ''00010001'']"

text \<open>
  The loop
  \<^verbatim>\<open>
  while len(bit_stream) < total_bits_needed:
      bit_stream += pad_bytes[pad_index % 2]
      pad_index += 1
  \<close>
\<close>

function add_pad_bytes :: "nat \<Rightarrow> nat \<Rightarrow> string \<Rightarrow> string" where
  "add_pad_bytes total_bits_needed pad_index bit_stream =
     (if length bit_stream < total_bits_needed
      then add_pad_bytes total_bits_needed (pad_index + 1)
             (bit_stream @ pad_bytes ! (pad_index mod 2))
      else bit_stream)"
  by pat_completeness auto
termination
proof (relation "measure (\<lambda>(total, i, bs). total - length bs)")
  show "wf (measure (\<lambda>(total, i, bs). total - length bs))" by simp
next
  fix total_bits_needed pad_index :: nat and bit_stream :: string
  assume "length bit_stream < total_bits_needed"
  moreover have "length (pad_bytes ! (pad_index mod 2)) = 8"
    by (cases "pad_index mod 2 = 0") (simp_all add: pad_bytes_def)
  ultimately show "((total_bits_needed, pad_index + 1, bit_stream @ pad_bytes ! (pad_index mod 2)),
      (total_bits_needed, pad_index, bit_stream))
     \<in> measure (\<lambda>(total, i, bs). total - length bs)"
    by simp
qed

declare add_pad_bytes.simps [simp del]

text \<open>\<open>[bit_stream[i:i + 8] for i in range(0, len(bit_stream), 8)]\<close>\<close>

definition split_codewords :: "string \<Rightarrow> string list" where
  "split_codewords bit_stream =
     map (\<lambda>k. take 8 (drop (8 * k) bit_stream)) [0..<(length bit_stream + 7) div 8]"

text \<open>
  The part of \<open>encode_byte_mode\<close> after the version was chosen: build the bit stream
  and cut it into codewords.  \<open>remaining_bits\<close> is an integer that can be negative;
  \<open>'0' * k\<close> is empty for a negative \<open>k\<close>.
\<close>

definition build_codewords :: "nat list \<Rightarrow> nat \<Rightarrow> string list" where
  "build_codewords data_bytes total_data_codewords =
     (let bit_stream = ''0100'';
          bit_stream = bit_stream @ format_0b 8 (length data_bytes);
          bit_stream = foldl (\<lambda>bs byte. bs @ format_0b 8 byte) bit_stream data_bytes;
          total_bits_needed = total_data_codewords * 8;
          remaining_bits = int total_bits_needed - int (length bit_stream);
          terminator_bits = min 4 remaining_bits;
          bit_stream = bit_stream @ replicate (nat terminator_bits) CHR ''0'';
          bit_stream =
            (if length bit_stream mod 8 \<noteq> 0
             then bit_stream @ replicate (8 - length bit_stream mod 8) CHR ''0''
             else bit_stream);
          bit_stream = add_pad_bytes total_bits_needed 0 bit_stream;
          codewords = split_codewords bit_stream
      in take total_data_codewords codewords)"

definition encode_byte_mode :: "py_str \<Rightarrow> error + (string list \<times> int)" where
  "encode_byte_mode data =
     (case encode_iso_8859_1 data of
        None \<Rightarrow> Inl InvalidCharacter
      | Some data_bytes \<Rightarrow>
          if length data_bytes \<le> 17 then Inr (build_codewords data_bytes 19, 1)
          else if length data_bytes \<le> 32 then Inr (build_codewords data_bytes 34, 2)
          else Inl PayloadTooLong)"


section \<open>matrix\_layout: module placement\<close>

definition V1_L_TOTAL_CODEWORDS :: int where
  "V1_L_TOTAL_CODEWORDS = 26"

definition V2_L_TOTAL_CODEWORDS :: int where
  "V2_L_TOTAL_CODEWORDS = 44"

definition V1_EFFECTIVE_BITSTREAM_LENGTH :: int where
  "V1_EFFECTIVE_BITSTREAM_LENGTH = V1_L_TOTAL_CODEWORDS * 8"

definition V2_EFFECTIVE_BITSTREAM_LENGTH :: int where
  "V2_EFFECTIVE_BITSTREAM_LENGTH = V2_L_TOTAL_CODEWORDS * 8 + 7"

definition ALIGNMENT_PATTERN_COORDS_LOOKUP :: "int \<rightharpoonup> int list" where
  "ALIGNMENT_PATTERN_COORDS_LOOKUP = map_of
      [(1, []), (2, [6, 18]), (3, [6, 22]), (4, [6, 26]), (5, [6, 30]), (6, [6, 34]),
       (7, [6, 22, 38]), (8, [6, 24, 42]), (9, [6, 26, 46]), (10, [6, 28, 50]),
       (11, [6, 30, 54]), (12, [6, 32, 58]), (13, [6, 34, 62]), (14, [6, 26, 46, 66]),
       (15, [6, 26, 48, 70]), (16, [6, 26, 50, 74]), (17, [6, 30, 54, 78]),
       (18, [6, 30, 56, 82]), (19, [6, 30, 58, 86]), (20, [6, 34, 62, 90]),
       (21, [6, 28, 50, 72, 94]), (22, [6, 26, 50, 74, 98]), (23, [6, 30, 54, 78, 102]),
       (24, [6, 28, 54, 80, 106]), (25, [6, 32, 58, 84, 110]), (26, [6, 30, 58, 86, 114]),
       (27, [6, 34, 62, 90, 118]), (28, [6, 26, 50, 74, 98, 122]),
       (29, [6, 30, 54, 78, 102, 126]), (30, [6, 26, 52, 78, 104, 130]),
       (31, [6, 30, 56, 82, 108, 134]), (32, [6, 34, 60, 86, 112, 138]),
       (33, [6, 30, 58, 86, 114, 142]), (34, [6, 34, 62, 90, 118, 146]),
       (35, [6, 30, 54, 78, 102, 126, 150]), (36, [6, 24, 50, 76, 102, 128, 154]),
       (37, [6, 28, 54, 80, 106, 132, 158]), (38, [6, 32, 58, 84, 110, 136, 162]),
       (39, [6, 26, 54, 82, 110, 138, 166]), (40, [6, 30, 58, 86, 114, 142, 170])]"

definition FORMAT_INFO_COORDINATES_PRIMARY :: "(int \<times> int) list" where
  "FORMAT_INFO_COORDINATES_PRIMARY =
     [(8, 0), (8, 1), (8, 2), (8, 3), (8, 4), (8, 5), (8, 7),
      (8, 8),
      (7, 8), (5, 8), (4, 8), (3, 8), (2, 8), (1, 8), (0, 8)]"

text \<open>
  \<open>int(ch)\<close> for a one-character string: the value of a decimal digit, \<open>ValueError\<close>
  for every other character.  \<open>str(n)\<close> for an integer.
\<close>

definition digit_of_char :: "char \<Rightarrow> error + int" where
  "digit_of_char ch =
     (let k = (of_char ch :: nat) in
      if 48 \<le> k \<and> k \<le> 57 then Inr (int k - 48) else Inl BadDigit)"

fun digits_of_string :: "string \<Rightarrow> error + int list" where
  "digits_of_string [] = Inr []"
| "digits_of_string (ch # s) =
     ebind (digit_of_char ch) (\<lambda>d. ebind (digits_of_string s) (\<lambda>ds. Inr (d # ds)))"

fun str_nat :: "nat \<Rightarrow> string" where
  "str_nat n =
     (if n < 10 then [char_of (48 + n)] else str_nat (n div 10) @ [char_of (48 + n mod 10)])"

declare str_nat.simps [simp del]

definition str_int :: "int \<Rightarrow> string" where
  "str_int i = (if i < 0 then CHR ''-'' # str_nat (nat (- i)) else str_nat (nat i))"

text \<open>
  \<open>int(s, 2)\<close> on a non-empty string of the characters 0 and 1.  (Python also
  accepts a sign, blanks, a \<open>0b\<close> prefix and underscores; the program never passes
  such a string, and they are \<open>BadDigit\<close> here.)
\<close>

definition int_base2 :: "string \<Rightarrow> error + int" where
  "int_base2 s =
     (if s \<noteq> [] \<and> list_all (\<lambda>ch. ch = CHR ''0'' \<or> ch = CHR ''1'') s
      then Inr (foldl (\<lambda>acc ch. 2 * acc + (if ch = CHR ''1'' then 1 else 0)) 0 s)
      else Inl BadDigit)"

text \<open>\<open>xs[start:]\<close>: a negative start counts from the end, and nothing raises.\<close>

definition slice_from :: "'a list \<Rightarrow> int \<Rightarrow> 'a list" where
  "slice_from xs start =
     (if start < 0 then drop (nat (int (length xs) + start)) xs else drop (nat start) xs)"

text \<open>
  \<open>_bch_poly_divide\<close>.  The inner loop XORs the generator into the data at offset
  \<open>i\<close>; the statement \<open>data_as_ints[i + j] ^= gen_as_ints[j]\<close> reads both lists.
\<close>

definition bch_xor_at :: "int list \<Rightarrow> nat \<Rightarrow> nat \<Rightarrow> int list \<Rightarrow> error + int list" where
  "bch_xor_at gen_as_ints i j data_as_ints =
     ebind (nth_err data_as_ints (i + j)) (\<lambda>d.
     ebind (nth_err gen_as_ints j) (\<lambda>g.
       Inr (data_as_ints[i + j := d XOR g])))"

definition bch_poly_divide :: "string \<Rightarrow> string \<Rightarrow> int \<Rightarrow> error + string" where
  "bch_poly_divide message_poly_str generator_poly_str ecc_len =
     (let num_message_bits = length message_poly_str;
          num_gen_bits = length generator_poly_str
      in
        ebind (digits_of_string message_poly_str) (\<lambda>data_as_ints.
        ebind (digits_of_string generator_poly_str) (\<lambda>gen_as_ints.
        ebind
          (fold_err
             (\<lambda>i data.
                ebind (nth_err data i) (\<lambda>d.
                  if d = 1 then fold_err (bch_xor_at gen_as_ints i) [0..<num_gen_bits] data
                  else Inr data))
             [0..<nat (int num_message_bits - ecc_len)] data_as_ints)
          (\<lambda>data. Inr (concat (map str_int (slice_from data (- ecc_len))))))))"

definition get_format_string :: "string \<Rightarrow> string \<Rightarrow> error + string" where
  "get_format_string ecc_level_indicator_str mask_pattern_indicator_str =
     (let data_5bit_str = ecc_level_indicator_str @ mask_pattern_indicator_str;
          message_poly_str_for_bch = data_5bit_str @ replicate 10 CHR ''0'';
          generator_poly_str_bch = ''10100110111''
      in
        ebind (bch_poly_divide message_poly_str_for_bch generator_poly_str_bch 10) (\<lambda>ecc_10bit_str.
          let format_info_no_mask_str = data_5bit_str @ ecc_10bit_str;
              final_xor_mask_val = (21522 :: int)
          in ebind (int_base2 format_info_no_mask_str) (\<lambda>v.
               Inr (format_0b 15 (nat (v XOR final_xor_mask_val))))))"

definition create_matrix :: "int \<Rightarrow> qr_matrix" where
  "create_matrix size' = replicate (nat size') (replicate (nat size') NoneC)"

definition finder_pattern :: "int list list" where
  "finder_pattern =
     [[1, 1, 1, 1, 1, 1, 1],
      [1, 0, 0, 0, 0, 0, 1],
      [1, 0, 1, 1, 1, 0, 1],
      [1, 0, 1, 1, 1, 0, 1],
      [1, 0, 1, 1, 1, 0, 1],
      [1, 0, 0, 0, 0, 0, 1],
      [1, 1, 1, 1, 1, 1, 1]]"

definition place_finder_pattern :: "qr_matrix \<Rightarrow> int \<Rightarrow> int \<Rightarrow> error + qr_matrix" where
  "place_finder_pattern matrix r_start c_start =
     fold_err
       (\<lambda>r_offset.
          fold_err
            (\<lambda>c_offset m.
               set_cell m (r_start + int r_offset) (c_start + int c_offset)
                 (IntC (finder_pattern ! r_offset ! c_offset)))
            [0..<7])
       [0..<7] matrix"

definition place_finder_patterns :: "qr_matrix \<Rightarrow> int \<Rightarrow> error + qr_matrix" where
  "place_finder_patterns matrix size' =
     ebind (place_finder_pattern matrix 0 0) (\<lambda>m.
     ebind (place_finder_pattern m 0 (size' - 7)) (\<lambda>m.
     place_finder_pattern m (size' - 7) 0))"

definition add_separators :: "qr_matrix \<Rightarrow> int \<Rightarrow> error + qr_matrix" where
  "add_separators matrix size' =
     ebind
       (fold_err (\<lambda>i m. ebind (set_cell m i 7 (IntC 0)) (\<lambda>m. set_cell m 7 i (IntC 0)))
          [0..7] matrix) (\<lambda>m.
     ebind
       (fold_err
          (\<lambda>i m. ebind (set_cell m i (size' - 8) (IntC 0)) (\<lambda>m. set_cell m 7 (size' - 1 - i) (IntC 0)))
          [0..7] m) (\<lambda>m.
     fold_err
       (\<lambda>i m. ebind (set_cell m (size' - 8) i (IntC 0)) (\<lambda>m. set_cell m (size' - 1 - i) 7 (IntC 0)))
       [0..7] m))"

definition alignment_pattern :: "int list list" where
  "alignment_pattern =
     [[1, 1, 1, 1, 1],
      [1, 0, 0, 0, 1],
      [1, 0, 1, 0, 1],
      [1, 0, 0, 0, 1],
      [1, 1, 1, 1, 1]]"

text \<open>
  \<open>place_alignment_pattern\<close>: a cell is written only when it lies inside the matrix
  (\<open>len(matrix[0])\<close> is read only after \<open>0 <= r < len(matrix)\<close> held, so the matrix
  is not empty there) and is still \<open>None\<close>.
\<close>

definition place_alignment_pattern :: "qr_matrix \<Rightarrow> int \<Rightarrow> int \<Rightarrow> error + qr_matrix" where
  "place_alignment_pattern matrix center_r center_c =
     fold_err
       (\<lambda>r_offset.
          fold_err
            (\<lambda>c_offset m.
               let r = center_r + r_offset; c = center_c + c_offset in
               if 0 \<le> r \<and> r < int (length m) \<and> 0 \<le> c \<and> c < int (length (hd m)) then
                 ebind (get_cell m r c) (\<lambda>v.
                   if v = NoneC then
                     set_cell m r c
                       (IntC (alignment_pattern ! nat (r_offset + 2) ! nat (c_offset + 2)))
                   else Inr m)
               else Inr m)
            [-2..2])
       [-2..2] matrix"

definition place_alignment_patterns :: "qr_matrix \<Rightarrow> int \<Rightarrow> error + qr_matrix" where
  "place_alignment_patterns matrix version =
     (if version < 2 then Inr matrix
      else
        let coords_list =
              (case ALIGNMENT_PATTERN_COORDS_LOOKUP version of None \<Rightarrow> [] | Some l \<Rightarrow> l)
        in
          if coords_list = [] then Inr matrix
          else
            let size' = int (length matrix);
                all_possible_centers =
                  concat (map (\<lambda>r_val. map (\<lambda>c_val. (r_val, c_val)) coords_list) coords_list)
            in
              fold_err
                (\<lambda>(r_center, c_center) m.
                   let finder_zones =
                         [(0, 0, 7, 7), (0, size' - 8, 7, size' - 1), (size' - 8, 0, size' - 1, 7)];
                       r_align_start = r_center - 2; c_align_start = c_center - 2;
                       r_align_end = r_center + 2; c_align_end = c_center + 2;
                       overlaps_finder =
                         list_ex
                           (\<lambda>(fr_start, fc_start, fr_end, fc_end).
                              \<not> (r_align_end < fr_start \<or> r_align_start > fr_end
                                 \<or> c_align_end < fc_start \<or> c_align_start > fc_end))
                           finder_zones
                   in if \<not> overlaps_finder then place_alignment_pattern m r_center c_center
                      else Inr m)
                all_possible_centers matrix)"

definition place_timing_patterns :: "qr_matrix \<Rightarrow> int \<Rightarrow> error + qr_matrix" where
  "place_timing_patterns matrix size' =
     fold_err
       (\<lambda>i m.
          let val = (if i mod 2 = 0 then 1 else 0) in
          ebind (get_cell m 6 i) (\<lambda>v.
          ebind (if v = NoneC then set_cell m 6 i (IntC val) else Inr m) (\<lambda>m.
          ebind (get_cell m i 6) (\<lambda>v.
            if v = NoneC then set_cell m i 6 (IntC val) else Inr m))))
       [8..size' - 9] matrix"

definition reserve_format_info_areas :: "qr_matrix \<Rightarrow> int \<Rightarrow> error + qr_matrix" where
  "reserve_format_info_areas matrix size' =
     ebind
       (fold_err
          (\<lambda>(r_coord, c_coord) m.
             if 0 \<le> r_coord \<and> r_coord < size' \<and> 0 \<le> c_coord \<and> c_coord < size' then
               ebind (get_cell m r_coord c_coord) (\<lambda>v.
                 if v = NoneC then set_cell m r_coord c_coord StrR else Inr m)
             else Inr m)
          FORMAT_INFO_COORDINATES_PRIMARY matrix) (\<lambda>m.
     ebind
       (fold_err
          (\<lambda>j_val m.
             ebind (get_cell m 8 (size' - 1 - j_val)) (\<lambda>v.
               if v = NoneC then set_cell m 8 (size' - 1 - j_val) StrR else Inr m))
          [0..7] m) (\<lambda>m.
     fold_err
       (\<lambda>j_val m.
          ebind (get_cell m (size' - 1 - j_val) 8) (\<lambda>v.
            if v = NoneC then set_cell m (size' - 1 - j_val) 8 StrR else Inr m))
       [0..7] m))"

definition place_dark_module :: "qr_matrix \<Rightarrow> int \<Rightarrow> error + qr_matrix" where
  "place_dark_module matrix size' =
     (let dark_module_row = size' - 8; dark_module_col = 8 in
      if 0 \<le> dark_module_row \<and> dark_module_row < size'
         \<and> 0 \<le> dark_module_col \<and> dark_module_col < size'
      then
        ebind (get_cell matrix dark_module_row dark_module_col) (\<lambda>v.
          if v = NoneC then set_cell matrix dark_module_row dark_module_col StrR
          else Inr matrix)
      else Inr matrix)"

definition get_size_from_version :: "int \<Rightarrow> error + int" where
  "get_size_from_version version =
     (if \<not> (1 \<le> version \<and> version \<le> 40) then Inl UnsupportedVersion
      else Inr ((version - 1) * 4 + 21))"

definition get_version_from_size :: "int \<Rightarrow> error + int" where
  "get_version_from_size size' =
     (if (size' - 21) mod 4 \<noteq> 0 \<or> \<not> (21 \<le> size' \<and> size' \<le> 177) then Inl InvalidSize
      else Inr ((size' - 21) div 4 + 1))"

definition get_expected_bitstream_length_for_version :: "int \<Rightarrow> error + int" where
  "get_expected_bitstream_length_for_version version =
     (if version = 1 then Inr V1_EFFECTIVE_BITSTREAM_LENGTH
      else if version = 2 then Inr V2_EFFECTIVE_BITSTREAM_LENGTH
      else Inl UnsupportedVersion)"

subsection \<open>The zig-zag placement of the data bits\<close>

text \<open>
  The body of the innermost loop of \<open>place_data_bits\<close>, on the matrix and
  \<open>bit_idx\<close>:
  \<^verbatim>\<open>
  if 0 <= current_c < size and matrix[row][current_c] is None:
      if bit_idx < len(data_bits_str):
          matrix[row][current_c] = int(data_bits_str[bit_idx])
          bit_idx += 1
      else:
          matrix[row][current_c] = 0
  \<close>
\<close>

definition place_bit ::
  "int \<Rightarrow> string \<Rightarrow> int \<Rightarrow> int \<Rightarrow> qr_matrix \<times> nat \<Rightarrow> error + qr_matrix \<times> nat" where
  "place_bit size' data_bits_str row current_c s =
     (case s of (matrix, bit_idx) \<Rightarrow>
        if 0 \<le> current_c \<and> current_c < size' then
          ebind (get_cell matrix row current_c) (\<lambda>v.
            if v = NoneC then
              if bit_idx < length data_bits_str then
                ebind (digit_of_char (data_bits_str ! bit_idx)) (\<lambda>b.
                ebind (set_cell matrix row current_c (IntC b)) (\<lambda>m. Inr (m, bit_idx + 1)))
              else ebind (set_cell matrix row current_c (IntC 0)) (\<lambda>m. Inr (m, bit_idx))
            else Inr (matrix, bit_idx))
        else Inr (matrix, bit_idx))"

text \<open>
  The loop \<open>for _ in range(size)\<close> over the rows of one column pair.  The first
  argument counts the iterations that are left.  The result carries the matrix,
  \<open>bit_idx\<close>, \<open>row\<close>, \<open>direction\<close> and whether the loop was left by \<open>break\<close>
  (where the source also subtracts 2 from \<open>col\<close>).
\<close>

fun sweep_rows ::
  "nat \<Rightarrow> int \<Rightarrow> string \<Rightarrow> int \<Rightarrow> qr_matrix \<times> nat \<times> int \<times> int
     \<Rightarrow> error + qr_matrix \<times> nat \<times> int \<times> int \<times> bool" where
  "sweep_rows 0 size' data_bits_str current_path_col (matrix, bit_idx, row, direction) =
     Inr (matrix, bit_idx, row, direction, False)"
| "sweep_rows (Suc n) size' data_bits_str current_path_col (matrix, bit_idx, row, direction) =
     ebind
       (fold_err (\<lambda>c_offset. place_bit size' data_bits_str row (current_path_col - c_offset))
          [0..1] (matrix, bit_idx))
       (\<lambda>(matrix, bit_idx).
          let row = row + direction in
          if \<not> (0 \<le> row \<and> row < size') then
            let direction = direction * (- 1); row = row + direction
            in Inr (matrix, bit_idx, row, direction, True)
          else sweep_rows n size' data_bits_str current_path_col (matrix, bit_idx, row, direction))"

text \<open>
  The loop \<open>while col >= 0\<close>.  From a state the program never reaches (\<open>direction\<close>
  0, say) it would not end, so it is a partial function: \<open>None\<close> stands for a loop
  that runs forever.
\<close>

partial_function (option) place_columns ::
  "int \<Rightarrow> string \<Rightarrow> qr_matrix \<times> nat \<times> int \<times> int \<times> int \<Rightarrow> (error + qr_matrix \<times> nat) option" where
  "place_columns size' data_bits_str s =
     (case s of (matrix, bit_idx, row, col, direction) \<Rightarrow>
        if col \<ge> 0 then
          if col = 6 then place_columns size' data_bits_str (matrix, bit_idx, row, col - 1, direction)
          else
            (case sweep_rows (nat size') size' data_bits_str col (matrix, bit_idx, row, direction) of
               Inl e \<Rightarrow> Some (Inl e)
             | Inr (matrix, bit_idx, row, direction, broke) \<Rightarrow>
                 let col = (if broke then col - 2 else col) in
                 if col < 0 then Some (Inr (matrix, bit_idx))
                 else place_columns size' data_bits_str (matrix, bit_idx, row, col, direction))
        else Some (Inr (matrix, bit_idx)))"

declare place_columns.simps [code]

text \<open>The last two loops of \<open>place_data_bits\<close>: every cell that is still \<open>None\<close> becomes 0.\<close>

definition fill_remaining :: "qr_matrix \<Rightarrow> int \<Rightarrow> error + qr_matrix" where
  "fill_remaining matrix size' =
     fold_err
       (\<lambda>r_idx.
          fold_err
            (\<lambda>c_idx m.
               ebind (get_cell m r_idx c_idx) (\<lambda>v.
                 if v = NoneC then set_cell m r_idx c_idx (IntC 0) else Inr m))
            [0..size' - 1])
       [0..size' - 1] matrix"

text \<open>
  \<open>place_data_bits\<close> changes the matrix in place and returns nothing; the model
  returns the matrix.  \<open>place_data_bits_idx\<close> is the state after the \<open>while\<close> loop,
  with the value of \<open>bit_idx\<close> there.
\<close>

definition place_data_bits_idx ::
  "qr_matrix \<Rightarrow> int \<Rightarrow> string \<Rightarrow> (error + qr_matrix \<times> nat) option" where
  "place_data_bits_idx matrix size' data_bits_str =
     place_columns size' data_bits_str (matrix, 0, size' - 1, size' - 1, - 1)"

definition place_data_bits :: "qr_matrix \<Rightarrow> int \<Rightarrow> string \<Rightarrow> (error + qr_matrix) option" where
  "place_data_bits matrix size' data_bits_str =
     map_option (\<lambda>res. ebind res (\<lambda>(m, bit_idx). fill_remaining m size'))
       (place_data_bits_idx matrix size' data_bits_str)"

text \<open>
  The function patterns of \<open>generate_qr_module\<close>, before the data bits are placed
  (everything up to and including \<open>place_dark_module\<close>).
\<close>

definition layout_function_patterns :: "int \<Rightarrow> error + qr_matrix" where
  "layout_function_patterns version =
     ebind (get_size_from_version version) (\<lambda>size'.
     ebind (place_finder_patterns (create_matrix size') size') (\<lambda>m.
     ebind (add_separators m size') (\<lambda>m.
     ebind (if version \<ge> 2 then place_alignment_patterns m version else Inr m) (\<lambda>m.
     ebind (place_timing_patterns m size') (\<lambda>m.
     ebind (reserve_format_info_areas m size') (\<lambda>m.
     place_dark_module m size'))))))"

definition generate_qr_module :: "string \<Rightarrow> int \<Rightarrow> (error + qr_matrix) option" where
  "generate_qr_module final_bitstream version =
     (case layout_function_patterns version of
        Inl e \<Rightarrow> Some (Inl e)
      | Inr matrix \<Rightarrow>
          (case get_size_from_version version of
             Inl e \<Rightarrow> Some (Inl e)
           | Inr size' \<Rightarrow> place_data_bits matrix size' final_bitstream))"

subsection \<open>Placement of the format information\<close>

text \<open>
  The last loop of \<open>place_format_information\<close>:
  \<^verbatim>\<open>
  for c_coord in range(8):
      if c_coord == 6:
          continue
      matrix[8][c_coord] = bits[idx]
      idx += 1

      dark_row = 4 * version + 9
      dark_col = 8
      matrix[dark_row][dark_col] = 1  # Force dark module

      return matrix
  \<close>
  The \<open>return\<close> is part of the loop body.  The result is \<open>Some\<close> matrix when the
  body returned and \<open>None\<close> when the loop ran out, where the Python function returns
  \<open>None\<close>.
\<close>

fun format_last_loop ::
  "int list \<Rightarrow> qr_matrix \<Rightarrow> int list \<Rightarrow> nat \<Rightarrow> int \<Rightarrow> error + qr_matrix option" where
  "format_last_loop [] matrix bits idx version = Inr None"
| "format_last_loop (c_coord # rest) matrix bits idx version =
     (if c_coord = 6 then format_last_loop rest matrix bits idx version
      else
        ebind (nth_err bits idx) (\<lambda>b.
        ebind (set_cell matrix 8 c_coord (IntC b)) (\<lambda>matrix.
          let dark_row = 4 * version + 9; dark_col = 8 in
          ebind (set_cell matrix dark_row dark_col (IntC 1)) (\<lambda>matrix.
            Inr (Some matrix)))))"

text \<open>
  The loops with \<open>continue\<close> and a counter \<open>idx\<close> that only the executed bodies
  advance: the state is the matrix and \<open>idx\<close>.
\<close>

definition place_format_information ::
  "qr_matrix \<Rightarrow> string \<Rightarrow> int \<Rightarrow> error + qr_matrix option" where
  "place_format_information matrix fmt size' =
     ebind (digits_of_string fmt) (\<lambda>bits.
     ebind
       (fold_err
          (\<lambda>(i, (r, c)) m. ebind (nth_err bits i) (\<lambda>b. set_cell m r c (IntC b)))
          (enumerate 0 FORMAT_INFO_COORDINATES_PRIMARY) matrix) (\<lambda>matrix.
     ebind
       (fold_err (\<lambda>i m. ebind (nth_err bits (nat i)) (\<lambda>b. set_cell m 8 (size' - 1 - i) (IntC b)))
          [0..7] matrix) (\<lambda>matrix.
     ebind
       (fold_err
          (\<lambda>r_coord (m, idx).
             if r_coord = 6 then Inr (m, idx)
             else ebind (nth_err bits idx) (\<lambda>b.
                  ebind (set_cell m r_coord 8 (IntC b)) (\<lambda>m. Inr (m, idx + 1))))
          [0..7] (matrix, 8)) (\<lambda>(matrix, idx).
     ebind
       (fold_err
          (\<lambda>i (m, idx).
             ebind (nth_err bits idx) (\<lambda>b.
             ebind (set_cell m (size' - 1 - i) 8 (IntC b)) (\<lambda>m. Inr (m, idx + 1))))
          [0..7] (matrix, 0)) (\<lambda>(matrix, idx).
     ebind (get_version_from_size size') (\<lambda>version.
       format_last_loop [0..7] matrix bits 8 version))))))"


section \<open>matrix\_masking: the function map, the penalty rules and the choice of a mask\<close>

text \<open>The nested helper \<open>mark_area\<close> of \<open>create_function_pattern_matrix\<close>.\<close>

definition mark_area ::
  "int \<Rightarrow> bool list list \<Rightarrow> int \<Rightarrow> int \<Rightarrow> int \<Rightarrow> int \<Rightarrow> error + bool list list" where
  "mark_area size' func_matrix r_start c_start r_len c_len =
     fold_err
       (\<lambda>r_val.
          fold_err
            (\<lambda>c_val fm.
               if 0 \<le> r_val \<and> r_val < size' \<and> 0 \<le> c_val \<and> c_val < size'
               then set_cell fm r_val c_val True else Inr fm)
            [c_start..c_start + c_len - 1])
       [r_start..r_start + r_len - 1] func_matrix"

definition create_function_pattern_matrix :: "int \<Rightarrow> error + bool list list" where
  "create_function_pattern_matrix version =
     ebind (get_size_from_version version) (\<lambda>size'.
       let func_matrix = replicate (nat size') (replicate (nat size') False) in
       ebind (mark_area size' func_matrix 0 0 8 8) (\<lambda>fm.
       ebind (mark_area size' fm 0 (size' - 8) 8 8) (\<lambda>fm.
       ebind (mark_area size' fm (size' - 8) 0 8 8) (\<lambda>fm.
       ebind
         (fold_err (\<lambda>i fm. ebind (set_cell fm 6 i True) (\<lambda>fm. set_cell fm i 6 True))
            [8..size' - 9] fm) (\<lambda>fm.
       ebind
         (fold_err
            (\<lambda>(r_coord, c_coord) fm.
               if 0 \<le> r_coord \<and> r_coord < size' \<and> 0 \<le> c_coord \<and> c_coord < size'
               then set_cell fm r_coord c_coord True else Inr fm)
            FORMAT_INFO_COORDINATES_PRIMARY fm) (\<lambda>fm.
       ebind (fold_err (\<lambda>j_val fm. set_cell fm 8 (size' - 1 - j_val) True) [0..7] fm) (\<lambda>fm.
       ebind (fold_err (\<lambda>i_val fm. set_cell fm (size' - 1 - i_val) 8 True) [0..7] fm) (\<lambda>fm.
         if version \<ge> 2 then
           let coords_ref_list =
                 (case ALIGNMENT_PATTERN_COORDS_LOOKUP version of None \<Rightarrow> [] | Some l \<Rightarrow> l);
               all_possible_centers_for_version =
                 concat
                   (map
                      (\<lambda>r_coord_val.
                         concat
                           (map
                              (\<lambda>c_coord_val.
                                 if (r_coord_val = 6 \<and> c_coord_val = 6)
                                    \<or> (r_coord_val = 6 \<and> c_coord_val = size' - 7)
                                    \<or> (r_coord_val = size' - 7 \<and> c_coord_val = 6)
                                 then [] else [(r_coord_val, c_coord_val)])
                              coords_ref_list))
                      coords_ref_list)
           in
             fold_err
               (\<lambda>(r_center, c_center) fm.
                  let finder_areas = [(0, 0, 8, 8), (0, size' - 8, 8, 8), (size' - 8, 0, 8, 8)];
                      overlaps_finder_area =
                        list_ex
                          (\<lambda>(fr, fc, flr, flc).
                             \<not> (r_center + 2 < fr \<or> r_center - 2 > fr + flr - 1
                                \<or> c_center + 2 < fc \<or> c_center - 2 > fc + flc - 1))
                          finder_areas
                  in
                    if overlaps_finder_area then Inr fm
                    else
                      fold_err
                        (\<lambda>r_offset.
                           fold_err
                             (\<lambda>c_offset fm.
                                if 0 \<le> r_center + r_offset \<and> r_center + r_offset < size'
                                   \<and> 0 \<le> c_center + c_offset \<and> c_center + c_offset < size'
                                then set_cell fm (r_center + r_offset) (c_center + c_offset) True
                                else Inr fm)
                             [-2..2])
                        [-2..2] fm)
               all_possible_centers_for_version fm
         else Inr fm))))))))"

subsection \<open>Penalty rules\<close>

text \<open>
  One row or column of rule 1: the loop over the cells after the first one, with
  \<open>count\<close>, \<open>current_val\<close> and \<open>penalty\<close>, and the check of the last group after
  the loop.
\<close>

fun scan_line :: "cell list \<Rightarrow> nat \<Rightarrow> cell \<Rightarrow> int \<Rightarrow> int" where
  "scan_line [] count current_val penalty =
     (if count \<ge> 5 then penalty + (3 + (int count - 5)) else penalty)"
| "scan_line (x # xs) count current_val penalty =
     (if x = current_val then scan_line xs (count + 1) current_val penalty
      else scan_line xs 1 x (if count \<ge> 5 then penalty + (3 + (int count - 5)) else penalty))"

text \<open>
  \<open>_calculate_penalty_rule1\<close> reads every cell \<open>matrix[r][c]\<close> with \<open>r\<close> and \<open>c\<close>
  below \<open>size = len(matrix)\<close>: it raises \<open>IndexError\<close> exactly when some row has
  fewer than \<open>size\<close> cells.
\<close>

definition calculate_penalty_rule1 :: "qr_matrix \<Rightarrow> error + int" where
  "calculate_penalty_rule1 matrix =
     (let size' = length matrix in
      if list_ex (\<lambda>row. length row < size') matrix then Inl IndexError
      else
        let penalty =
              foldl (\<lambda>penalty r_idx.
                       scan_line (map (\<lambda>c_idx. matrix ! r_idx ! c_idx) [1..<size']) 1
                         (matrix ! r_idx ! 0) penalty)
                0 [0..<size'];
            penalty =
              foldl (\<lambda>penalty c_idx.
                       scan_line (map (\<lambda>r_idx. matrix ! r_idx ! c_idx) [1..<size']) 1
                         (matrix ! 0 ! c_idx) penalty)
                penalty [0..<size']
        in Inr penalty)"

text \<open>
  Rules 2 to 4 run after rule 1 (the list \<open>penalties\<close> is built left to right), so
  every row has at least \<open>size\<close> cells when they run, and none of their reads
  \<open>matrix[r][c]\<close> with \<open>r\<close>, \<open>c\<close> below \<open>size\<close> is out of range.
\<close>

definition calculate_penalty_rule2 :: "qr_matrix \<Rightarrow> int" where
  "calculate_penalty_rule2 matrix =
     (let size' = length matrix in
      foldl (\<lambda>penalty r_idx.
        foldl (\<lambda>penalty c_idx.
          if matrix ! r_idx ! c_idx = matrix ! (r_idx + 1) ! c_idx
             \<and> matrix ! r_idx ! c_idx = matrix ! r_idx ! (c_idx + 1)
             \<and> matrix ! r_idx ! c_idx = matrix ! (r_idx + 1) ! (c_idx + 1)
          then penalty + 3 else penalty)
          penalty [0..<size' - 1])
        0 [0..<size' - 1])"

definition patterns_to_check_horizontal :: "cell list list" where
  "patterns_to_check_horizontal =
     [map IntC [0, 0, 0, 0, 1, 0, 1, 1, 1, 0, 1],
      map IntC [1, 0, 1, 1, 1, 0, 1, 0, 0, 0, 0]]"

definition calculate_penalty_rule3 :: "qr_matrix \<Rightarrow> int" where
  "calculate_penalty_rule3 matrix =
     (let size' = length matrix;
          pat_len = 11;
          penalty =
            foldl (\<lambda>penalty r_idx.
              foldl (\<lambda>penalty c_idx.
                let current_row_slice = take pat_len (drop c_idx (matrix ! r_idx)) in
                if current_row_slice = patterns_to_check_horizontal ! 0
                   \<or> current_row_slice = patterns_to_check_horizontal ! 1
                then penalty + 40 else penalty)
                penalty [0..<size' + 1 - pat_len])
              0 [0..<size'];
          penalty =
            foldl (\<lambda>penalty c_idx.
              foldl (\<lambda>penalty r_idx.
                let current_col_slice = map (\<lambda>k. matrix ! k ! c_idx) [r_idx..<r_idx + pat_len] in
                if current_col_slice = patterns_to_check_horizontal ! 0
                   \<or> current_col_slice = patterns_to_check_horizontal ! 1
                then penalty + 40 else penalty)
                penalty [0..<size' + 1 - pat_len])
              penalty [0..<size']
      in penalty)"

text \<open>
  Rule 4.  The source computes \<open>(dark / total) * 100.0\<close>, the deviation from 50 and
  \<open>math.floor(deviation / 5)\<close> in double precision; the model computes the same
  expression in exact rational arithmetic.  (For the two matrix sizes of the
  program, 21 and 25, the double-precision result is the exact one for every
  possible number of dark modules.)
\<close>

definition calculate_penalty_rule4 :: "qr_matrix \<Rightarrow> int" where
  "calculate_penalty_rule4 matrix =
     (let size' = length matrix in
      if size' = 0 then 0
      else
        let total_modules = size' * size';
            dark_modules = sum_list (map (\<lambda>row. count_list row (IntC 1)) matrix);
            percent_dark = (of_nat dark_modules / of_nat total_modules) * (100 :: rat);
            deviation = \<bar>percent_dark - 50\<bar>;
            penalty_factor = \<lfloor>deviation / 5\<rfloor>
        in penalty_factor * 10)"

text \<open>
  \<open>calculate_total_penalty_score\<close>.  For an empty matrix or an empty first row it
  returns \<open>10 ^ 18\<close>, which in Python is the XOR of 10 and 18.
\<close>

definition calculate_total_penalty_score :: "qr_matrix \<Rightarrow> error + int \<times> int list" where
  "calculate_total_penalty_score matrix =
     (if matrix = [] \<or> (length matrix > 0 \<and> hd matrix = [])
      then Inr (10 XOR 18, replicate 4 (10 XOR 18))
      else
        ebind (calculate_penalty_rule1 matrix) (\<lambda>p1.
          let penalties =
                [p1, calculate_penalty_rule2 matrix, calculate_penalty_rule3 matrix,
                 calculate_penalty_rule4 matrix];
              total_score = sum_list penalties
          in Inr (total_score, penalties)))"

subsection \<open>\<open>find_best_pattern\<close>\<close>

text \<open>
  The integer-only copy of the matrix that is scored: every cell that is no
  integer (\<open>'R'\<close> or \<open>None\<close>) becomes 0.
\<close>

definition eval_matrix_base :: "qr_matrix \<Rightarrow> qr_matrix" where
  "eval_matrix_base base_qr_matrix_with_placeholders =
     map (map (\<lambda>val. case val of IntC x \<Rightarrow> IntC x | _ \<Rightarrow> IntC 0))
       base_qr_matrix_with_placeholders"

text \<open>
  One iteration of the loop \<open>for p_id in range(8)\<close>.  The state is
  \<open>best_score\<close> (\<open>None\<close> for \<open>float('inf')\<close>), \<open>best_mask_id\<close> and
  \<open>best_actually_masked_matrix\<close> (\<open>None\<close> for Python's \<open>None\<close>).
\<close>

definition try_pattern ::
  "qr_matrix \<Rightarrow> bool list list \<Rightarrow> int
     \<Rightarrow> int option \<times> int \<times> qr_matrix option \<Rightarrow> error + int option \<times> int \<times> qr_matrix option" where
  "try_pattern base_qr_matrix_with_placeholders function_map p_id s =
     (case s of (best_score, best_mask_id, best_actually_masked_matrix) \<Rightarrow>
        ebind
          (apply_specific_mask_pattern p_id (eval_matrix_base base_qr_matrix_with_placeholders)
             function_map) (\<lambda>current_masked_for_eval_scoring.
        ebind (calculate_total_penalty_score current_masked_for_eval_scoring)
          (\<lambda>(score, penalties_list).
             if (case best_score of None \<Rightarrow> True | Some b \<Rightarrow> score < b) then
               ebind
                 (apply_specific_mask_pattern p_id base_qr_matrix_with_placeholders function_map)
                 (\<lambda>masked. Inr (Some score, p_id, Some masked))
             else Inr (best_score, best_mask_id, best_actually_masked_matrix))))"

definition find_best_pattern :: "qr_matrix \<Rightarrow> bool list list \<Rightarrow> error + qr_matrix \<times> int" where
  "find_best_pattern base_qr_matrix_with_placeholders function_map =
     ebind
       (fold_err (try_pattern base_qr_matrix_with_placeholders function_map) [0..7]
          (None, - 1, None))
       (\<lambda>(best_score, best_mask_id, best_actually_masked_matrix).
          case best_actually_masked_matrix of
            None \<Rightarrow>
              ebind (apply_specific_mask_pattern 0 base_qr_matrix_with_placeholders function_map)
                (\<lambda>masked. Inr (masked, 0))
          | Some masked \<Rightarrow> Inr (masked, best_mask_id))"


section \<open>error\_correction: Reed--Solomon codewords\<close>

text \<open>
  \<open>generate_error_correction\<close> obtains the codewords from
  \<open>RSCodec(ecc_count).encode\<close> of the package \<open>reedsolo\<close>, which is not part of the
  sources.  The encoder is therefore modelled from sections 4.1 and 4.3 of the
  specification: arithmetic in GF(256) with the primitive polynomial \<open>0x11D\<close>,
  polynomials as coefficient lists with the highest degree first, the generator
  polynomial \<open>g_e(x) = (x - \<alpha>^0) \<cdots> (x - \<alpha>^(e-1))\<close> and the remainder of the long
  division of \<open>message(x) * x^e\<close> by \<open>g_e(x)\<close>.  A codeword is an 8-bit value: a
  field element is an integer from 0 to 255, whose bit \<open>i\<close> is the coefficient of
  \<open>x^i\<close>.
\<close>

type_synonym gf = int

text \<open>
  Modelled from the spec: the field GF(256) with primitive polynomial \<open>0x11D\<close>, not
  under src/.  \<open>gf_xtime\<close> multiplies by \<open>x\<close>: a shift to the left, from which the
  primitive polynomial \<open>x^8 + x^4 + x^3 + x^2 + 1\<close> (\<open>0x11D\<close>) is subtracted when the
  coefficient of \<open>x^8\<close> is set.
\<close>

definition gf_xtime :: "gf \<Rightarrow> gf" where
  "gf_xtime a = (if bit a 7 then push_bit 1 a XOR 0x11D else push_bit 1 a)"

text \<open>
  Modelled from the spec: multiplication in GF(256), not under src/.  The product is
  the sum (XOR) of \<open>a * x^i\<close> over the bits \<open>i\<close> of \<open>b\<close>.
\<close>

fun gf_mul_upto :: "gf \<Rightarrow> gf \<Rightarrow> nat \<Rightarrow> gf" where
  "gf_mul_upto a b 0 = 0"
| "gf_mul_upto a b (Suc i) =
     gf_mul_upto a b i XOR (if bit b i then (gf_xtime ^^ i) a else 0)"

definition gf_mul :: "gf \<Rightarrow> gf \<Rightarrow> gf" where
  "gf_mul a b = gf_mul_upto a b 8"

text \<open>Modelled from the spec: the primitive element \<open>\<alpha>\<close> (the polynomial \<open>x\<close>) and its powers.\<close>

definition gf_alpha :: gf where
  "gf_alpha = 2"

fun gf_pow :: "gf \<Rightarrow> nat \<Rightarrow> gf" where
  "gf_pow a 0 = 1"
| "gf_pow a (Suc n) = gf_mul (gf_pow a n) a"

text \<open>
  Modelled from the spec: polynomials over GF(256) as coefficient sequences, high
  degree first: the value at a point (Horner's rule), the product with a scalar, the
  sum (aligned at the constant coefficient) and the product of two polynomials.
\<close>

definition poly_eval :: "gf list \<Rightarrow> gf \<Rightarrow> gf" where
  "poly_eval p a = foldl (\<lambda>acc c. gf_mul acc a XOR c) 0 p"

definition poly_scale :: "gf list \<Rightarrow> gf \<Rightarrow> gf list" where
  "poly_scale p c = map (\<lambda>x. gf_mul x c) p"

definition poly_add :: "gf list \<Rightarrow> gf list \<Rightarrow> gf list" where
  "poly_add p q =
     (let n = max (length p) (length q)
      in map2 (XOR) (replicate (n - length p) 0 @ p) (replicate (n - length q) 0 @ q))"

fun poly_mul :: "gf list \<Rightarrow> gf list \<Rightarrow> gf list" where
  "poly_mul [] q = []"
| "poly_mul (c # p) q = poly_add (poly_scale q c @ replicate (length p) 0) (poly_mul p q)"

text \<open>
  Modelled from the spec: the generator polynomial
  \<open>g_e(x) = \<Prod>_{i=0}^{e-1} (x - \<alpha>^i)\<close>; in characteristic 2 the factor is \<open>x + \<alpha>^i\<close>.
\<close>

definition rs_generator_poly :: "nat \<Rightarrow> gf list" where
  "rs_generator_poly e = foldl (\<lambda>g i. poly_mul g [1, gf_pow gf_alpha i]) [1] [0..<e]"

text \<open>
  Modelled from the spec: polynomial long division by a polynomial with leading
  coefficient 1.  \<open>xor_into xs ys\<close> adds \<open>xs\<close> to the leading coefficients of \<open>ys\<close>.
  Each step removes the leading coefficient \<open>c\<close> of the dividend by adding \<open>c * g\<close>.
\<close>

fun xor_into :: "gf list \<Rightarrow> gf list \<Rightarrow> gf list" where
  "xor_into [] ys = ys"
| "xor_into (x # xs) [] = []"
| "xor_into (x # xs) (y # ys) = (x XOR y) # xor_into xs ys"

fun poly_divide_steps :: "nat \<Rightarrow> gf list \<Rightarrow> gf list \<Rightarrow> gf list" where
  "poly_divide_steps 0 g r = r"
| "poly_divide_steps (Suc n) g r =
     (case r of
        [] \<Rightarrow> []
      | c # r' \<Rightarrow> poly_divide_steps n g (xor_into (poly_scale (tl g) c) r'))"

text \<open>
  Modelled from the spec: the Reed--Solomon encoder.  The remainder of
  \<open>message(x) * x^e\<close> modulo \<open>g_e(x)\<close>, high degree first, is the ECC sequence;
  \<open>rs_encode\<close> is what \<open>RSCodec(e).encode\<close> returns, the message followed by it.
\<close>

definition rs_remainder :: "gf list \<Rightarrow> nat \<Rightarrow> gf list" where
  "rs_remainder msg e = poly_divide_steps (length msg) (rs_generator_poly e) (msg @ replicate e 0)"

definition rs_encode :: "nat \<Rightarrow> int list \<Rightarrow> int list" where
  "rs_encode e data = data @ rs_remainder data e"

text \<open>
  \<open>generate_error_correction\<close>, from the source; \<open>full_message_integers[-ecc_count:]\<close>
  is a slice.
\<close>

definition generate_error_correction :: "int list \<Rightarrow> int \<Rightarrow> error + string list" where
  "generate_error_correction data_codeword_integers version =
     (if version = 1 \<or> version = 2 then
        let ecc_count = (if version = 1 then 7 else 10);
            full_message_integers = rs_encode ecc_count data_codeword_integers;
            ecc_byte_integers = slice_from full_message_integers (- int ecc_count);
            ecc_binary_strings = map (\<lambda>b. format_0b 8 (nat b)) ecc_byte_integers
        in Inr ecc_binary_strings
      else Inl UnsupportedVersion)"


section \<open>app: the pipeline\<close>

text \<open>
  The part of \<open>assemble_qr_matrix\<close> after \<open>generate_qr_module\<close>: the function map,
  the choice of the mask, the format string, the integer matrix and the placement of
  the format information.  The mask id that \<open>find_best_pattern\<close> returns is never
  negative, so \<open>format(best_mask, '03b')\<close> has no sign.  The \<open>print\<close> before the
  \<open>return\<close> evaluates \<open>len(final_matrix)\<close> and \<open>len(final_matrix[0])\<close>.
\<close>

definition mask_and_format :: "qr_matrix \<Rightarrow> int \<Rightarrow> error + qr_matrix" where
  "mask_and_format matrix version =
     ebind (create_function_pattern_matrix version) (\<lambda>mask_map.
     ebind (find_best_pattern matrix mask_map) (\<lambda>(masked_matrix, best_mask).
     ebind (get_format_string ''01'' (format_0b 3 (nat best_mask))) (\<lambda>fmt.
       let int_matrix =
             map (map (\<lambda>cell. case cell of IntC x \<Rightarrow> IntC x | StrR \<Rightarrow> IntC 0 | NoneC \<Rightarrow> IntC 0))
               masked_matrix
       in
         ebind (get_size_from_version version) (\<lambda>size'.
         ebind (place_format_information int_matrix fmt size') (\<lambda>final_matrix.
           case final_matrix of
             None \<Rightarrow> Inl TypeError
           | Some m \<Rightarrow> if m = [] then Inl IndexError else Inr m)))))"

text \<open>
  \<open>assemble_qr_matrix(text)\<close> with \<open>explain=False\<close>; the result is the matrix stored
  under \<open>"final"\<close>.  \<open>None\<close> stands for a run that does not end.
\<close>

definition assemble_qr_matrix :: "py_str \<Rightarrow> (error + qr_matrix) option" where
  "assemble_qr_matrix text =
     (case encode_byte_mode text of
        Inl e \<Rightarrow> Some (Inl e)
      | Inr (data_cw, version) \<Rightarrow>
          (case map_err int_base2 data_cw of
             Inl e \<Rightarrow> Some (Inl e)
           | Inr data_cw_int \<Rightarrow>
               (case generate_error_correction data_cw_int version of
                  Inl e \<Rightarrow> Some (Inl e)
                | Inr ecc_cw \<Rightarrow>
                    (let all_codewords = data_cw @ ecc_cw;
                         final_bits = concat all_codewords;
                         final_bits =
                           (if version = 2 then final_bits @ replicate 7 CHR ''0'' else final_bits)
                     in
                       (case generate_qr_module final_bits version of
                          None \<Rightarrow> None
                        | Some (Inl e) \<Rightarrow> Some (Inl e)
                        | Some (Inr matrix) \<Rightarrow> Some (mask_and_format matrix version))))))"


section \<open>Auxiliary definitions for the statements about masking\<close>

text \<open>
  The value a flipped cell takes, the condition under which the loop body reads the
  cell \<open>(r, c)\<close> without an \<open>IndexError\<close>, and the matrix after the loops have
  handled the first \<open>k\<close> columns of the first \<open>j\<close> rows.
\<close>

definition xor_cell :: "cell \<Rightarrow> cell" where
  "xor_cell v = (case v of IntC x \<Rightarrow> IntC (x XOR 1) | _ \<Rightarrow> v)"

definition cell_ok :: "bool list list \<Rightarrow> qr_matrix \<Rightarrow> nat \<Rightarrow> nat \<Rightarrow> bool" where
  "cell_ok fm m r c = (c < length (fm ! r) \<and> (fm ! r ! c \<or> c < length (m ! r)))"

definition masked_row :: "(nat \<Rightarrow> nat \<Rightarrow> bool) \<Rightarrow> bool list list \<Rightarrow> qr_matrix \<Rightarrow> nat \<Rightarrow> nat \<Rightarrow> cell list" where
  "masked_row f fm m k r =
     map (\<lambda>c. if c < k \<and> \<not> fm ! r ! c \<and> f r c then xor_cell (m ! r ! c) else m ! r ! c)
       [0..<length (m ! r)]"

definition masked_rows :: "(nat \<Rightarrow> nat \<Rightarrow> bool) \<Rightarrow> bool list list \<Rightarrow> qr_matrix \<Rightarrow> nat \<Rightarrow> nat \<Rightarrow> qr_matrix" where
  "masked_rows f fm m k j =
     map (\<lambda>r. if r < j then masked_row f fm m k r else m ! r) [0..<length m]"

text \<open>A small matrix and function map on which the masking theorems are instantiated.\<close>

definition demo_matrix :: qr_matrix where
  "demo_matrix = [[IntC 0, IntC 1, StrR], [IntC 1, IntC 1, IntC 0]]"

definition demo_function_map :: "bool list list" where
  "demo_function_map = [[False, False, True], [False, True, False]]"

section \<open>Auxiliary definitions for the statements about the encoder\<close>

text \<open>
  The \<open>k\<close> low bits of \<open>n\<close>, most significant first, as characters; the
  first \<open>k\<close> pad codewords, alternating and starting with \<open>11101100\<close>; and the
  code points of the text \<open>HELLO WORLD\<close>.
\<close>

definition bits_msb :: "nat \<Rightarrow> nat \<Rightarrow> string" where
  "bits_msb k n = map (\<lambda>i. if bit n (k - 1 - i) then CHR ''1'' else CHR ''0'') [0..<k]"

definition pad_codewords :: "nat \<Rightarrow> string" where
  "pad_codewords k = concat (map (\<lambda>i. if even i then ''11101100'' else ''00010001'') [0..<k])"

definition hello :: py_str where "hello = [72,69,76,76,79,32,87,79,82,76,68]"

text \<open>
  The data codewords of \<open>HELLO WORLD\<close>, as the binary strings that
  \<open>encode_byte_mode\<close> returns and as integers.
\<close>

definition hello_data_cw :: "string list" where
  "hello_data_cw =
     [''01000000'', ''10110100'', ''10000100'', ''01010100'', ''11000100'',
      ''11000100'', ''11110010'', ''00000101'', ''01110100'', ''11110101'',
      ''00100100'', ''11000100'', ''01000000'', ''11101100'', ''00010001'',
      ''11101100'', ''00010001'', ''11101100'', ''00010001'']"

definition hello_data_cw_int :: "int list" where
  "hello_data_cw_int =
     [0x40, 0xB4, 0x84, 0x54, 0xC4, 0xC4, 0xF2, 0x05, 0x74, 0xF5, 0x24, 0xC4, 0x40,
      0xEC, 0x11, 0xEC, 0x11, 0xEC, 0x11]"

text \<open>An all-light 21 by 21 integer matrix, as input of \<open>place_format_information\<close>.\<close>

definition zero_matrix_21 :: qr_matrix where
  "zero_matrix_21 = replicate 21 (replicate 21 (IntC 0))"

section \<open>Auxiliary definitions for the statements about the choice of the mask\<close>

text \<open>
  \<open>masked_penalty m fm p\<close> is the total of the four penalty rules on the matrix
  masked with pattern \<open>p\<close>, in which every cell that is still reserved counts as
  light (0).  \<open>pick_best\<close> is the running minimum of the loop of
  \<open>find_best_pattern\<close>, which replaces the best score only by a strictly smaller one.
\<close>

definition masked_penalty :: "qr_matrix \<Rightarrow> bool list list \<Rightarrow> int \<Rightarrow> error + int" where
  "masked_penalty m fm p =
     ebind (apply_specific_mask_pattern p m fm) (\<lambda>masked.
     ebind (calculate_total_penalty_score (eval_matrix_base masked)) (\<lambda>(total_score, penalties).
       Inr total_score))"

fun pick_best :: "(int \<Rightarrow> int) \<Rightarrow> int \<times> int \<Rightarrow> int list \<Rightarrow> int \<times> int" where
  "pick_best sc (s0, b0) [] = (s0, b0)"
| "pick_best sc (s0, b0) (p # ps) = pick_best sc (if sc p < s0 then (sc p, p) else (s0, b0)) ps"

subsection \<open>The four penalty rules as the specification states them\<close>

text \<open>
  The definitions \<open>spec_N1\<close> to \<open>spec_N4\<close> and \<open>spec_penalty_total\<close> follow the
  wording of the specification (section 4.7), not the loops of the source; they are
  compared with \<open>calculate_total_penalty_score\<close> in the theorems.  They score a
  matrix of colours (1 dark, 0 light); \<open>light_reserved\<close> gives the colours of a
  matrix, every cell that is still reserved counting as light.

  \<^item> N1: for each row and each column, every maximal run of equal colour of length
    \<open>k \<ge> 5\<close> contributes \<open>3 + (k - 5)\<close>; \<open>spec_runs\<close> gives the lengths of the
    maximal runs of a line.
  \<^item> N2: every 2 by 2 block of identical colour adds 3, overlapping blocks counted
    independently.
  \<^item> N3: every horizontal and vertical window of length 11 that equals
    \<open>10111010000\<close> or \<open>00001011101\<close> adds 40.
  \<^item> N4: with \<open>p\<close> the percentage of dark modules over all cells, the score is
    \<open>10 * floor (|p - 50| / 5)\<close>.
\<close>

definition light_reserved :: "qr_matrix \<Rightarrow> int list list" where
  "light_reserved m = map (map (\<lambda>v. case v of IntC x \<Rightarrow> x | _ \<Rightarrow> 0)) m"

function spec_runs :: "int list \<Rightarrow> nat list" where
  "spec_runs [] = []"
| "spec_runs (x # xs) =
     Suc (length (takeWhile (\<lambda>y. y = x) xs)) # spec_runs (dropWhile (\<lambda>y. y = x) xs)"
  by pat_completeness auto

termination spec_runs
  by (relation "measure length") (simp_all add: length_dropWhile_le less_Suc_eq_le)

definition spec_run_penalty :: "nat \<Rightarrow> int" where
  "spec_run_penalty k = (if k \<ge> 5 then 3 + (int k - 5) else 0)"

definition spec_line_penalty :: "int list \<Rightarrow> int" where
  "spec_line_penalty line = (\<Sum>k\<leftarrow>spec_runs line. spec_run_penalty k)"

definition spec_columns :: "int list list \<Rightarrow> int list list" where
  "spec_columns m = map (\<lambda>c. map (\<lambda>row. row ! c) m) [0..<length m]"

definition spec_N1 :: "int list list \<Rightarrow> int" where
  "spec_N1 m = (\<Sum>line\<leftarrow>m @ spec_columns m. spec_line_penalty line)"

definition spec_block_identical :: "int list list \<Rightarrow> nat \<Rightarrow> nat \<Rightarrow> bool" where
  "spec_block_identical m r c =
     (m ! r ! c = m ! (r + 1) ! c \<and> m ! r ! c = m ! r ! (c + 1)
      \<and> m ! r ! c = m ! (r + 1) ! (c + 1))"

definition spec_N2 :: "int list list \<Rightarrow> int" where
  "spec_N2 m =
     (\<Sum>r\<leftarrow>[0..<length m - 1]. \<Sum>c\<leftarrow>[0..<length m - 1]. if spec_block_identical m r c then 3 else 0)"

definition spec_windows :: "nat \<Rightarrow> int list \<Rightarrow> int list list" where
  "spec_windows k line = map (\<lambda>i. take k (drop i line)) [0..<length line + 1 - k]"

definition spec_finder_like :: "int list \<Rightarrow> bool" where
  "spec_finder_like w =
     (w = [1, 0, 1, 1, 1, 0, 1, 0, 0, 0, 0] \<or> w = [0, 0, 0, 0, 1, 0, 1, 1, 1, 0, 1])"

definition spec_N3 :: "int list list \<Rightarrow> int" where
  "spec_N3 m =
     (\<Sum>line\<leftarrow>m @ spec_columns m. \<Sum>w\<leftarrow>spec_windows 11 line. if spec_finder_like w then 40 else 0)"

definition spec_N4 :: "int list list \<Rightarrow> int" where
  "spec_N4 m =
     (let dark = length (filter (\<lambda>v. v = 1) (concat m));
          p = 100 * of_nat dark / of_nat (length m * length m) :: rat
      in 10 * \<lfloor>\<bar>p - 50\<bar> / 5\<rfloor>)"

definition spec_penalty_total :: "int list list \<Rightarrow> int" where
  "spec_penalty_total m = spec_N1 m + spec_N2 m + spec_N3 m + spec_N4 m"

text \<open>
  An 11 by 11 matrix with two reserved cells, its function map (the 3 by 3 corner),
  and the matrix masked with pattern 2, on which the choice of the mask is
  instantiated.
\<close>

definition penalty_matrix :: qr_matrix where
  "penalty_matrix =
     [[StrR, IntC 1, IntC 0, IntC 0, IntC 0, IntC 0, IntC 0, IntC 0, IntC 0, IntC 1, IntC 1],
      [IntC 1, IntC 1, StrR, IntC 1, IntC 1, IntC 0, IntC 0, IntC 1, IntC 1, IntC 1, IntC 1],
      [IntC 1, IntC 1, IntC 0, IntC 0, IntC 0, IntC 1, IntC 1, IntC 1, IntC 1, IntC 0, IntC 0],
      [IntC 1, IntC 1, IntC 0, IntC 1, IntC 1, IntC 1, IntC 0, IntC 0, IntC 1, IntC 1, IntC 1],
      [IntC 0, IntC 0, IntC 1, IntC 0, IntC 1, IntC 0, IntC 1, IntC 1, IntC 1, IntC 0, IntC 1],
      [IntC 0, IntC 1, IntC 1, IntC 1, IntC 0, IntC 1, IntC 0, IntC 1, IntC 1, IntC 0, IntC 0],
      [IntC 1, IntC 0, IntC 0, IntC 0, IntC 1, IntC 0, IntC 1, IntC 1, IntC 0, IntC 0, IntC 0],
      [IntC 0, IntC 1, IntC 0, IntC 1, IntC 0, IntC 1, IntC 0, IntC 1, IntC 1, IntC 1, IntC 1],
      [IntC 0, IntC 0, IntC 1, IntC 0, IntC 1, IntC 0, IntC 0, IntC 0, IntC 0, IntC 1, IntC 0],
      [IntC 1, IntC 1, IntC 0, IntC 1, IntC 0, IntC 1, IntC 0, IntC 1, IntC 1, IntC 0, IntC 1],
      [IntC 0, IntC 1, IntC 0, IntC 0, IntC 1, IntC 0, IntC 1, IntC 0, IntC 1, IntC 0, IntC 1]]"

definition penalty_function_map :: "bool list list" where
  "penalty_function_map =
     [[True, True, True, False, False, False, False, False, False, False, False],
      [True, True, True, False, False, False, False, False, False, False, False],
      [True, True, True, False, False, False, False, False, False, False, False],
      [False, False, False, False, False, False, False, False, False, False, False],
      [False, False, False, False, False, False, False, False, False, False, False],
      [False, False, False, False, False, False, False, False, False, False, False],
      [False, False, False, False, False, False, False, False, False, False, False],
      [False, False, False, False, False, False, False, False, False, False, False],
      [False, False, False, False, False, False, False, False, False, False, False],
      [False, False, False, False, False, False, False, False, False, False, False],
      [False, False, False, False, False, False, False, False, False, False, False]]"

definition penalty_masked_2 :: qr_matrix where
  "penalty_masked_2 =
     [[StrR, IntC 1, IntC 0, IntC 1, IntC 0, IntC 0, IntC 1, IntC 0, IntC 0, IntC 0, IntC 1],
      [IntC 1, IntC 1, StrR, IntC 0, IntC 1, IntC 0, IntC 1, IntC 1, IntC 1, IntC 0, IntC 1],
      [IntC 1, IntC 1, IntC 0, IntC 1, IntC 0, IntC 1, IntC 0, IntC 1, IntC 1, IntC 1, IntC 0],
      [IntC 0, IntC 1, IntC 0, IntC 0, IntC 1, IntC 1, IntC 1, IntC 0, IntC 1, IntC 0, IntC 1],
      [IntC 1, IntC 0, IntC 1, IntC 1, IntC 1, IntC 0, IntC 0, IntC 1, IntC 1, IntC 1, IntC 1],
      [IntC 1, IntC 1, IntC 1, IntC 0, IntC 0, IntC 1, IntC 1, IntC 1, IntC 1, IntC 1, IntC 0],
      [IntC 0, IntC 0, IntC 0, IntC 1, IntC 1, IntC 0, IntC 0, IntC 1, IntC 0, IntC 1, IntC 0],
      [IntC 1, IntC 1, IntC 0, IntC 0, IntC 0, IntC 1, IntC 1, IntC 1, IntC 1, IntC 0, IntC 1],
      [IntC 1, IntC 0, IntC 1, IntC 1, IntC 1, IntC 0, IntC 1, IntC 0, IntC 0, IntC 0, IntC 0],
      [IntC 0, IntC 1, IntC 0, IntC 0, IntC 0, IntC 1, IntC 1, IntC 1, IntC 1, IntC 1, IntC 1],
      [IntC 1, IntC 1, IntC 0, IntC 1, IntC 1, IntC 0, IntC 0, IntC 0, IntC 1, IntC 1, IntC 1]]"

section \<open>Auxiliary definitions for the statements about the placement of the data bits\<close>

text \<open>
  Cells are addressed by pairs of natural numbers (row, column).  \<open>fill_cell\<close> is
  the loop body \<open>place_bit\<close> without the index checks, \<open>place_path\<close> runs
  \<open>place_bit\<close> along a list of cells, \<open>free_cells\<close> are the cells of a path that
  are not set, and \<open>write_cells\<close> writes consecutive bits of the stream into a list
  of cells.  \<open>zigzag_path n up cs\<close> is the order in which the loops of
  \<open>place_data_bits\<close> visit the cells of an \<open>n\<close> by \<open>n\<close> matrix: the column pairs
  with right-hand columns \<open>cs\<close>, alternately upwards and downwards;
  \<open>column_chain col cs\<close> says that \<open>cs\<close> are the values that \<open>col\<close> takes at the
  head of the \<open>while\<close> loop.
\<close>

definition bit_value :: "char \<Rightarrow> int" where
  "bit_value ch = (if ch = CHR ''1'' then 1 else 0)"

definition binary_string :: "string \<Rightarrow> bool" where
  "binary_string s = list_all (\<lambda>ch. ch = CHR ''0'' \<or> ch = CHR ''1'') s"

definition in_matrix :: "'a list list \<Rightarrow> nat \<times> nat \<Rightarrow> bool" where
  "in_matrix m rc = (fst rc < length m \<and> snd rc < length (m ! fst rc))"

definition put_cell :: "'a list list \<Rightarrow> nat \<times> nat \<Rightarrow> 'a \<Rightarrow> 'a list list" where
  "put_cell m rc v = m[fst rc := (m ! fst rc)[snd rc := v]]"

definition cell_at :: "'a list list \<Rightarrow> nat \<times> nat \<Rightarrow> 'a" where
  "cell_at m rc = m ! fst rc ! snd rc"

definition fill_cell :: "string \<Rightarrow> nat \<times> nat \<Rightarrow> qr_matrix \<times> nat \<Rightarrow> qr_matrix \<times> nat" where
  "fill_cell bits rc s =
     (case s of (m, idx) \<Rightarrow>
        if cell_at m rc = NoneC then
          if idx < length bits then (put_cell m rc (IntC (bit_value (bits ! idx))), idx + 1)
          else (put_cell m rc (IntC 0), idx)
        else (m, idx))"

definition free_cells :: "qr_matrix \<Rightarrow> (nat \<times> nat) list \<Rightarrow> (nat \<times> nat) list" where
  "free_cells m path = filter (\<lambda>rc. cell_at m rc = NoneC) path"

fun write_cells :: "string \<Rightarrow> nat \<Rightarrow> (nat \<times> nat) list \<Rightarrow> qr_matrix \<Rightarrow> qr_matrix" where
  "write_cells bits idx [] m = m"
| "write_cells bits idx (rc # cells) m =
     write_cells bits (idx + 1) cells (put_cell m rc (IntC (bit_value (bits ! idx))))"

definition place_path ::
  "int \<Rightarrow> string \<Rightarrow> (nat \<times> nat) list \<Rightarrow> qr_matrix \<times> nat \<Rightarrow> error + qr_matrix \<times> nat" where
  "place_path size' bits path s =
     fold_err (\<lambda>rc. place_bit size' bits (int (fst rc)) (int (snd rc))) path s"

definition pair_cells :: "nat list \<Rightarrow> nat \<Rightarrow> (nat \<times> nat) list" where
  "pair_cells rows c = concat (map (\<lambda>r. [(r, c), (r, c - 1)]) rows)"

fun zigzag_path :: "nat \<Rightarrow> bool \<Rightarrow> nat list \<Rightarrow> (nat \<times> nat) list" where
  "zigzag_path n up [] = []"
| "zigzag_path n up (c # cs) =
     pair_cells (if up then rev [0..<n] else [0..<n]) c @ zigzag_path n (\<not> up) cs"

fun column_chain :: "int \<Rightarrow> nat list \<Rightarrow> bool" where
  "column_chain col [] = (col < 0)"
| "column_chain col (c # cs) =
     (int c = (if col = 6 then 5 else col) \<and> 1 \<le> c \<and> column_chain (int c - 2) cs)"

definition same_shape :: "'a list list \<Rightarrow> 'b list list \<Rightarrow> bool" where
  "same_shape m m' = (map length m = map length m')"

section \<open>The function patterns of versions 1 and 2, written out\<close>

text \<open>
  The matrices that \<open>layout_function_patterns\<close> and
  \<open>create_function_pattern_matrix\<close> compute for versions 1 and 2, one string per
  row: \<open>1\<close> and \<open>0\<close> for a dark and a light function module, \<open>R\<close> for a reserved
  cell and a dot for a cell that is not set; in a function map \<open>#\<close> for true and a
  dot for false.  The lemmas \<open>layout_function_patterns_1\<close> and following state that
  the functions return exactly these.
\<close>

definition cell_of_char :: "char \<Rightarrow> cell" where
  "cell_of_char ch =
     (if ch = CHR ''1'' then IntC 1 else if ch = CHR ''0'' then IntC 0
      else if ch = CHR ''R'' then StrR else NoneC)"

definition layout_v1 :: qr_matrix where
  "layout_v1 = map (map cell_of_char)
      [''11111110R....01111111'',
       ''10000010R....01000001'',
       ''10111010R....01011101'',
       ''10111010R....01011101'',
       ''10111010R....01011101'',
       ''10000010R....01000001'',
       ''111111101010101111111'',
       ''00000000R....00000000'',
       ''RRRRRR1RR....RRRRRRRR'',
       ''......0..............'',
       ''......1..............'',
       ''......0..............'',
       ''......1..............'',
       ''00000000R............'',
       ''11111110R............'',
       ''10000010R............'',
       ''10111010R............'',
       ''10111010R............'',
       ''10111010R............'',
       ''10000010R............'',
       ''11111110R............'']"

definition layout_v2 :: qr_matrix where
  "layout_v2 = map (map cell_of_char)
      [''11111110R........01111111'',
       ''10000010R........01000001'',
       ''10111010R........01011101'',
       ''10111010R........01011101'',
       ''10111010R........01011101'',
       ''10000010R........01000001'',
       ''1111111010101010101111111'',
       ''00000000R........00000000'',
       ''RRRRRR1RR........RRRRRRRR'',
       ''......0..................'',
       ''......1..................'',
       ''......0..................'',
       ''......1..................'',
       ''......0..................'',
       ''......1..................'',
       ''......0..................'',
       ''......1.........11111....'',
       ''00000000R.......10001....'',
       ''11111110R.......10101....'',
       ''10000010R.......10001....'',
       ''10111010R.......11111....'',
       ''10111010R................'',
       ''10111010R................'',
       ''10000010R................'',
       ''11111110R................'']"

definition function_map_v1 :: "bool list list" where
  "function_map_v1 = map (map (\<lambda>ch. ch = CHR ''#''))
      [''#########....########'',
       ''#########....########'',
       ''#########....########'',
       ''#########....########'',
       ''#########....########'',
       ''#########....########'',
       ''#####################'',
       ''#########....########'',
       ''#########....########'',
       ''......#..............'',
       ''......#..............'',
       ''......#..............'',
       ''......#..............'',
       ''#########............'',
       ''#########............'',
       ''#########............'',
       ''#########............'',
       ''#########............'',
       ''#########............'',
       ''#########............'',
       ''#########............'']"

definition function_map_v2 :: "bool list list" where
  "function_map_v2 = map (map (\<lambda>ch. ch = CHR ''#''))
      [''#########........########'',
       ''#########........########'',
       ''#########........########'',
       ''#########........########'',
       ''#########........########'',
       ''#########........########'',
       ''#########################'',
       ''#########........########'',
       ''#########........########'',
       ''......#..................'',
       ''......#..................'',
       ''......#..................'',
       ''......#..................'',
       ''......#..................'',
       ''......#..................'',
       ''......#..................'',
       ''......#.........#####....'',
       ''#########.......#####....'',
       ''#########.......#####....'',
       ''#########.......#####....'',
       ''#########.......#####....'',
       ''#########................'',
       ''#########................'',
       ''#########................'',
       ''#########................'']"

text \<open>
  The right-hand columns of the column pairs that the zig-zag visits, for the side
  lengths 21 and 25 (column 6 is skipped).
\<close>

definition zigzag_columns_v1 :: "nat list" where
  "zigzag_columns_v1 = [20, 18, 16, 14, 12, 10, 8, 5, 3, 1]"

definition zigzag_columns_v2 :: "nat list" where
  "zigzag_columns_v2 = [24, 22, 20, 18, 16, 14, 12, 10, 8, 5, 3, 1]"


text \<open>
  The cells that receive the data bits, in the order of the zig-zag: the cells of the
  path that the function patterns leave unset.  \<open>sample_bitstream\<close> is a stream of
  208 bits.
\<close>

definition data_cells :: "int \<Rightarrow> (nat \<times> nat) list" where
  "data_cells version =
     (if version = 1 then free_cells layout_v1 (zigzag_path 21 True zigzag_columns_v1)
      else free_cells layout_v2 (zigzag_path 25 True zigzag_columns_v2))"

definition sample_bitstream :: string where
  "sample_bitstream = concat (replicate 26 ''11101100'')"

section \<open>Auxiliary definitions for the statements about the pipeline\<close>

text \<open>
  \<open>square n m\<close>: the matrix \<open>m\<close> has \<open>n\<close> rows of \<open>n\<close> cells.  \<open>byte x\<close>: the
  integer \<open>x\<close> is a codeword, a value from 0 to 255.
\<close>

definition square :: "nat \<Rightarrow> 'a list list \<Rightarrow> bool" where
  "square n m = (length m = n \<and> (\<forall>row\<in>set m. length row = n))"

definition byte :: "int \<Rightarrow> bool" where
  "byte x = (0 \<le> x \<and> x < 256)"

section \<open>Masking: what \<open>apply_specific_mask_pattern\<close> computes\<close>

lemma ebind_simps [simp]: "ebind (Inl e) f = Inl e" "ebind (Inr x) f = f x"
  by (simp_all add: ebind_def)

lemma fold_err_append: "fold_err f (xs @ ys) s = ebind (fold_err f xs s) (fold_err f ys)"
  by (induction xs arbitrary: s) (auto simp: ebind_def split: sum.splits)

lemma length_masked_row [simp]: "length (masked_row f fm m k r) = length (m ! r)"
  by (simp add: masked_row_def)

lemma masked_row_0: "masked_row f fm m 0 r = m ! r"
  by (simp add: masked_row_def map_nth)

lemma mask_cell_step:
  assumes r: "r < length m" "r < length fm" and len: "length (out ! r) = length (m ! r)" "length out = length m"
    and row: "out ! r = masked_row f fm m k r"
  shows "mask_cell f fm r k out =
     (if cell_ok fm m r k then Inr (out[r := masked_row f fm m (Suc k) r]) else Inl IndexError)"
proof (cases "cell_ok fm m r k")
  case False
  then show ?thesis using r len
    by (auto simp: mask_cell_def nth_err_def cell_ok_def)
next
  case True
  have eq: "masked_row f fm m (Suc k) r =
     (if \<not> fm ! r ! k \<and> f r k \<and> k < length (m ! r) then (out ! r)[k := xor_cell (m ! r ! k)] else out ! r)"
    unfolding row masked_row_def
    by (auto intro!: nth_equalityI simp: nth_list_update less_Suc_eq)
  have cur: "k < length (m ! r) \<Longrightarrow> out ! r ! k = m ! r ! k"
    unfolding row masked_row_def by simp
  show ?thesis
    using True r len cur unfolding eq
    by (auto simp: mask_cell_def nth_err_def cell_ok_def xor_cell_def list_update_same_conv split: cell.splits)
      (metis list_update_id)+
qed

lemma mask_row_loop:
  assumes r: "r < length m" "r < length fm" and len: "length out = length m" and row: "out ! r = m ! r"
  shows "fold_err (\<lambda>c. mask_cell f fm r c) [0..<k] out =
     (if \<forall>c<k. cell_ok fm m r c then Inr (out[r := masked_row f fm m k r]) else Inl IndexError)"
proof (induction k)
  case 0
  show ?case using row by (simp add: masked_row_0 list_update_same_conv[THEN iffD2] r len)
next
  case (Suc k)
  show ?case
  proof (cases "\<forall>c<k. cell_ok fm m r c")
    case False
    then show ?thesis using Suc by (auto simp: fold_err_append less_Suc_eq)
  next
    case True
    let ?out = "out[r := masked_row f fm m k r]"
    have step: "mask_cell f fm r k ?out =
       (if cell_ok fm m r k then Inr (?out[r := masked_row f fm m (Suc k) r]) else Inl IndexError)"
      by (rule mask_cell_step) (use r len in simp_all)
    show ?thesis using True Suc step
      by (auto simp: fold_err_append less_Suc_eq)
  qed
qed

lemma length_masked_rows [simp]: "length (masked_rows f fm m k j) = length m"
  by (simp add: masked_rows_def)

lemma masked_rows_0: "masked_rows f fm m k 0 = m"
  by (simp add: masked_rows_def map_nth)

lemma masked_rows_Suc:
  "j < length m \<Longrightarrow> (masked_rows f fm m k j)[j := masked_row f fm m k j] = masked_rows f fm m k (Suc j)"
  by (auto intro!: nth_equalityI simp: masked_rows_def nth_list_update less_Suc_eq)

lemma mask_rows_loop:
  assumes "j \<le> length m" "j \<le> length fm"
  shows "fold_err (\<lambda>r. fold_err (\<lambda>c. mask_cell f fm r c) [0..<k]) [0..<j] m =
     (if \<forall>r<j. \<forall>c<k. cell_ok fm m r c then Inr (masked_rows f fm m k j) else Inl IndexError)"
  using assms
proof (induction j)
  case 0
  show ?case by (simp add: masked_rows_0)
next
  case (Suc j)
  then have j: "j < length m" "j < length fm" by simp_all
  show ?case
  proof (cases "\<forall>r<j. \<forall>c<k. cell_ok fm m r c")
    case False
    then show ?thesis using Suc by (auto simp: fold_err_append less_Suc_eq)
  next
    case True
    let ?out = "masked_rows f fm m k j"
    have row: "fold_err (\<lambda>c. mask_cell f fm j c) [0..<k] ?out =
       (if \<forall>c<k. cell_ok fm m j c then Inr (?out[j := masked_row f fm m k j]) else Inl IndexError)"
      by (rule mask_row_loop) (use j in \<open>simp_all add: masked_rows_def\<close>)
    show ?thesis using True Suc j row
      by (auto simp: fold_err_append less_Suc_eq masked_rows_Suc)
  qed
qed

lemma mask_functions_dom: "0 \<le> p \<Longrightarrow> p \<le> 7 \<Longrightarrow> \<exists>f. MASK_CONDITION_FUNCTIONS p = Some f"
proof -
  assume "0 \<le> p" "p \<le> 7"
  then have "p = 0 \<or> p = 1 \<or> p = 2 \<or> p = 3 \<or> p = 4 \<or> p = 5 \<or> p = 6 \<or> p = 7" by arith
  then show ?thesis by (auto simp: MASK_CONDITION_FUNCTIONS_def)
qed

lemma apply_specific_mask_pattern_eq:
  "apply_specific_mask_pattern p m fm =
     (if \<not> (0 \<le> p \<and> p \<le> 7) then Inl MaskIdRange
      else if m = [] \<or> length fm \<noteq> length m \<or> (0 < length (hd m) \<and> length (hd m) \<noteq> length (hd fm))
      then Inl DimensionMismatch
      else if \<forall>r<length m. \<forall>c<length (hd m). cell_ok fm m r c
      then Inr (masked_rows (the (MASK_CONDITION_FUNCTIONS p)) fm m (length (hd m)) (length m))
      else Inl IndexError)"
proof -
  have cols: "(if m \<noteq> [] \<and> hd m \<noteq> [] then length (hd m) else 0) = length (hd m)" if "m \<noteq> []"
    using that by auto
  show ?thesis
  proof (cases "0 \<le> p \<and> p \<le> 7")
    case False
    then show ?thesis by (simp add: apply_specific_mask_pattern_def)
  next
    case True
    then obtain f where f: "MASK_CONDITION_FUNCTIONS p = Some f"
      using mask_functions_dom by blast
    show ?thesis
    proof (cases "m = [] \<or> length fm \<noteq> length m \<or> (0 < length (hd m) \<and> length (hd m) \<noteq> length (hd fm))")
      case bad: True
      then show ?thesis using True
        by (auto simp: apply_specific_mask_pattern_def Let_def)
    next
      case good: False
      then have ne: "m \<noteq> []" and len: "length fm = length m" by auto
      have loop: "fold_err (\<lambda>r. fold_err (\<lambda>c. mask_cell f fm r c) [0..<length (hd m)]) [0..<length m] m =
         (if \<forall>r<length m. \<forall>c<length (hd m). cell_ok fm m r c
          then Inr (masked_rows f fm m (length (hd m)) (length m)) else Inl IndexError)"
        by (rule mask_rows_loop) (simp_all add: len)
      have "apply_specific_mask_pattern p m fm =
         fold_err (\<lambda>r. fold_err (\<lambda>c. mask_cell f fm r c) [0..<length (hd m)]) [0..<length m] m"
        using True good f ne by (auto simp add: apply_specific_mask_pattern_def Let_def cols)
      then show ?thesis using True good f loop by simp
    qed
  qed
qed

lemma xor_cell_twice [simp]: "xor_cell (xor_cell v) = v"
proof (cases v)
  case (IntC x)
  have "(x XOR 1) XOR 1 = x" by (auto simp add: bit_eq_iff bit_xor_iff)
  then show ?thesis using IntC by (simp add: xor_cell_def)
qed (simp_all add: xor_cell_def)

lemma nth_masked_rows:
  "r < length m \<Longrightarrow> r < j \<Longrightarrow> c < length (m ! r) \<Longrightarrow>
   masked_rows f fm m k j ! r ! c =
     (if c < k \<and> \<not> fm ! r ! c \<and> f r c then xor_cell (m ! r ! c) else m ! r ! c)"
  by (simp add: masked_rows_def masked_row_def)

lemma length_nth_masked_rows:
  "r < length m \<Longrightarrow> length (masked_rows f fm m k j ! r) = length (m ! r)"
  by (simp add: masked_rows_def)

lemma masked_rows_twice:
  "masked_rows f fm (masked_rows f fm m k (length m)) k (length m) = m"
proof (rule nth_equalityI)
  show "length (masked_rows f fm (masked_rows f fm m k (length m)) k (length m)) = length m" by simp
next
  fix r assume "r < length (masked_rows f fm (masked_rows f fm m k (length m)) k (length m))"
  then have r: "r < length m" by simp
  let ?m' = "masked_rows f fm m k (length m)"
  have lr: "length (?m' ! r) = length (m ! r)" using r by (rule length_nth_masked_rows)
  have "masked_rows f fm ?m' k (length ?m') ! r = m ! r"
  proof (rule nth_equalityI)
    show "length (masked_rows f fm ?m' k (length ?m') ! r) = length (m ! r)"
      using r lr by (simp add: length_nth_masked_rows)
  next
    fix c assume "c < length (masked_rows f fm ?m' k (length ?m') ! r)"
    then have c: "c < length (m ! r)" using r lr by (simp add: length_nth_masked_rows)
    have "masked_rows f fm ?m' k (length ?m') ! r ! c =
        (if c < k \<and> \<not> fm ! r ! c \<and> f r c then xor_cell (?m' ! r ! c) else ?m' ! r ! c)"
      by (rule nth_masked_rows) (use r c lr in simp_all)
    also have "\<dots> = m ! r ! c"
      using r c by (simp add: nth_masked_rows)
    finally show "masked_rows f fm ?m' k (length ?m') ! r ! c = m ! r ! c" .
  qed
  then show "masked_rows f fm ?m' k (length m) ! r = m ! r" by simp
qed

lemma mask_twice:
  assumes "apply_specific_mask_pattern p m fm = Inr out"
  shows "apply_specific_mask_pattern p out fm = Inr m"
proof -
  let ?f = "the (MASK_CONDITION_FUNCTIONS p)"
  let ?k = "length (hd m)"
  from assms have p: "0 \<le> p \<and> p \<le> 7"
    and dims: "\<not> (m = [] \<or> length fm \<noteq> length m \<or> (0 < ?k \<and> ?k \<noteq> length (hd fm)))"
    and ok: "\<forall>r<length m. \<forall>c<?k. cell_ok fm m r c"
    and out: "out = masked_rows ?f fm m ?k (length m)"
    by (auto simp: apply_specific_mask_pattern_eq split: if_splits)
  have ne: "m \<noteq> []" using dims by simp
  have lout: "length out = length m" by (simp add: out)
  have lrow: "length (out ! r) = length (m ! r)" if "r < length m" for r
    unfolding out using that by (rule length_nth_masked_rows)
  have "out \<noteq> []" using ne lout by auto
  then have hd: "length (hd out) = ?k"
    using ne lrow[of 0] by (simp add: hd_conv_nth)
  have ok': "\<forall>r<length out. \<forall>c<length (hd out). cell_ok fm out r c"
    using ok lrow by (simp add: cell_ok_def lout hd)
  have "apply_specific_mask_pattern p out fm = Inr (masked_rows ?f fm out ?k (length m))"
    using p dims ok' lout hd by (auto simp: apply_specific_mask_pattern_eq)
  then show ?thesis by (simp add: out masked_rows_twice)
qed

lemma mask_functions_cases:
  assumes "0 \<le> p" "p \<le> 7"
  shows "the (MASK_CONDITION_FUNCTIONS p) r c \<longleftrightarrow>
     (p = 0 \<and> (r + c) mod 2 = 0) \<or> (p = 1 \<and> r mod 2 = 0) \<or> (p = 2 \<and> c mod 3 = 0)
     \<or> (p = 3 \<and> (r + c) mod 3 = 0) \<or> (p = 4 \<and> (r div 2 + c div 3) mod 2 = 0)
     \<or> (p = 5 \<and> (r * c) mod 2 + (r * c) mod 3 = 0)
     \<or> (p = 6 \<and> ((r * c) mod 2 + (r * c) mod 3) mod 2 = 0)
     \<or> (p = 7 \<and> ((r + c) mod 2 + (r * c) mod 3) mod 2 = 0)"
proof -
  from assms have "p = 0 \<or> p = 1 \<or> p = 2 \<or> p = 3 \<or> p = 4 \<or> p = 5 \<or> p = 6 \<or> p = 7" by arith
  then show ?thesis
    by (elim disjE)
      (simp_all add: MASK_CONDITION_FUNCTIONS_def should_mask_pattern_0_def should_mask_pattern_1_def
        should_mask_pattern_2_def should_mask_pattern_3_def should_mask_pattern_4_def
        should_mask_pattern_5_def should_mask_pattern_6_def should_mask_pattern_7_def)
qed

text \<open>
  Claim C6.  For a mask id \<open>p\<close> in 0..7, a non-empty matrix whose rows all have
  length \<open>n\<close>, a function map of the same dimensions, and cells that are the integers
  0 or 1 wherever the function map is false, \<open>apply_specific_mask_pattern\<close> returns a
  matrix of the same dimensions in which cell \<open>(r, c)\<close> is the input cell XOR 1
  exactly when the function map is false at \<open>(r, c)\<close> and the condition of pattern
  \<open>p\<close> holds there, and is the unchanged input cell everywhere else; in particular a
  cell where the function map is true and a reserved cell keep their value.
\<close>

theorem apply_specific_mask_pattern_flips:
  assumes p: "0 \<le> p" "p \<le> 7"
    and ne: "matrix \<noteq> []"
    and rows: "\<forall>row\<in>set matrix. length row = n"
    and flen: "length function_map = length matrix"
    and frows: "\<forall>frow\<in>set function_map. length frow = n"
    and bits: "\<forall>r<length matrix. \<forall>c<n. \<not> function_map ! r ! c \<longrightarrow>
                 matrix ! r ! c = IntC 0 \<or> matrix ! r ! c = IntC 1"
  shows "\<exists>out. apply_specific_mask_pattern p matrix function_map = Inr out
     \<and> length out = length matrix \<and> (\<forall>row\<in>set out. length row = n)
     \<and> (\<forall>r<length matrix. \<forall>c<n.
          if \<not> function_map ! r ! c \<and>
             ((p = 0 \<and> (r + c) mod 2 = 0) \<or> (p = 1 \<and> r mod 2 = 0) \<or> (p = 2 \<and> c mod 3 = 0)
              \<or> (p = 3 \<and> (r + c) mod 3 = 0) \<or> (p = 4 \<and> (r div 2 + c div 3) mod 2 = 0)
              \<or> (p = 5 \<and> (r * c) mod 2 + (r * c) mod 3 = 0)
              \<or> (p = 6 \<and> ((r * c) mod 2 + (r * c) mod 3) mod 2 = 0)
              \<or> (p = 7 \<and> ((r + c) mod 2 + (r * c) mod 3) mod 2 = 0))
          then \<exists>v. matrix ! r ! c = IntC v \<and> out ! r ! c = IntC (v XOR 1)
          else out ! r ! c = matrix ! r ! c)
     \<and> (\<forall>r<length matrix. \<forall>c<n. function_map ! r ! c \<or> matrix ! r ! c = StrR
          \<longrightarrow> out ! r ! c = matrix ! r ! c)"
proof -
  let ?f = "the (MASK_CONDITION_FUNCTIONS p)"
  let ?out = "masked_rows ?f function_map matrix n (length matrix)"
  have rl: "length (matrix ! r) = n" if "r < length matrix" for r
    using rows that by simp
  have fl: "length (function_map ! r) = n" if "r < length matrix" for r
    using frows flen that by simp
  have "function_map \<noteq> []" using ne flen by auto
  then have hd: "length (hd matrix) = n" "length (hd function_map) = n"
    using ne rl[of 0] fl[of 0] by (auto simp: hd_conv_nth)
  have ok: "\<forall>r<length matrix. \<forall>c<length (hd matrix). cell_ok function_map matrix r c"
    using rl fl by (simp add: cell_ok_def hd)
  have res: "apply_specific_mask_pattern p matrix function_map = Inr ?out"
    using p ne flen ok by (simp add: apply_specific_mask_pattern_eq hd)
  have cellv: "?out ! r ! c =
      (if \<not> function_map ! r ! c \<and> ?f r c then xor_cell (matrix ! r ! c) else matrix ! r ! c)"
    if "r < length matrix" "c < n" for r c
    using that rl by (simp add: nth_masked_rows)
  have lens: "\<forall>row\<in>set ?out. length row = n"
    using rl by (auto simp: in_set_conv_nth length_nth_masked_rows)
  have flip: "\<forall>r<length matrix. \<forall>c<n.
          if \<not> function_map ! r ! c \<and>
             ((p = 0 \<and> (r + c) mod 2 = 0) \<or> (p = 1 \<and> r mod 2 = 0) \<or> (p = 2 \<and> c mod 3 = 0)
              \<or> (p = 3 \<and> (r + c) mod 3 = 0) \<or> (p = 4 \<and> (r div 2 + c div 3) mod 2 = 0)
              \<or> (p = 5 \<and> (r * c) mod 2 + (r * c) mod 3 = 0)
              \<or> (p = 6 \<and> ((r * c) mod 2 + (r * c) mod 3) mod 2 = 0)
              \<or> (p = 7 \<and> ((r + c) mod 2 + (r * c) mod 3) mod 2 = 0))
          then \<exists>v. matrix ! r ! c = IntC v \<and> ?out ! r ! c = IntC (v XOR 1)
          else ?out ! r ! c = matrix ! r ! c"
  proof (intro allI impI)
    fix r c assume rc: "r < length matrix" "c < n"
    show "if \<not> function_map ! r ! c \<and>
             ((p = 0 \<and> (r + c) mod 2 = 0) \<or> (p = 1 \<and> r mod 2 = 0) \<or> (p = 2 \<and> c mod 3 = 0)
              \<or> (p = 3 \<and> (r + c) mod 3 = 0) \<or> (p = 4 \<and> (r div 2 + c div 3) mod 2 = 0)
              \<or> (p = 5 \<and> (r * c) mod 2 + (r * c) mod 3 = 0)
              \<or> (p = 6 \<and> ((r * c) mod 2 + (r * c) mod 3) mod 2 = 0)
              \<or> (p = 7 \<and> ((r + c) mod 2 + (r * c) mod 3) mod 2 = 0))
          then \<exists>v. matrix ! r ! c = IntC v \<and> ?out ! r ! c = IntC (v XOR 1)
          else ?out ! r ! c = matrix ! r ! c"
    proof (cases "\<not> function_map ! r ! c \<and> ?f r c")
      case True
      then have "matrix ! r ! c = IntC 0 \<or> matrix ! r ! c = IntC 1" using bits rc by blast
      then obtain v where v: "matrix ! r ! c = IntC v" by blast
      then have "?out ! r ! c = IntC (v XOR 1)"
        using True cellv[OF rc] by (simp add: xor_cell_def)
      then show ?thesis
        unfolding mask_functions_cases[OF p, of r c, symmetric] using True v by simp
    next
      case False
      then have "?out ! r ! c = matrix ! r ! c" using cellv[OF rc] by auto
      then show ?thesis
        unfolding mask_functions_cases[OF p, of r c, symmetric] using False by auto
    qed
  qed
  have keep: "\<forall>r<length matrix. \<forall>c<n. function_map ! r ! c \<or> matrix ! r ! c = StrR
          \<longrightarrow> ?out ! r ! c = matrix ! r ! c"
    using cellv by (auto simp: xor_cell_def)
  show ?thesis using res lens flip keep by (intro exI[of _ ?out]) simp
qed

text \<open>
  Claim C10.  For a mask id \<open>p\<close> in 0..7, a non-empty matrix whose rows all have
  length \<open>n\<close> and a function map of the same dimensions, masking the result of
  \<open>apply_specific_mask_pattern\<close> again with the same pattern and the same function map
  returns the original matrix.  (The cells need not be 0 or 1 for this: a cell that is
  no integer is never touched, and XOR 1 is its own inverse on every integer.)
\<close>

theorem apply_specific_mask_pattern_involution:
  assumes "0 \<le> p" "p \<le> 7"
    and "matrix \<noteq> []"
    and "\<forall>row\<in>set matrix. length row = n"
    and "length function_map = length matrix"
    and "\<forall>frow\<in>set function_map. length frow = n"
  shows "\<exists>out. apply_specific_mask_pattern p matrix function_map = Inr out
     \<and> apply_specific_mask_pattern p out function_map = Inr matrix"
proof -
  have rl: "length (matrix ! r) = n" if "r < length matrix" for r
    using assms(4) that by simp
  have fl: "length (function_map ! r) = n" if "r < length matrix" for r
    using assms(5,6) that by simp
  have "function_map \<noteq> []" using assms(3,5) by auto
  then have hd: "length (hd matrix) = n" "length (hd function_map) = n"
    using assms(3) rl[of 0] fl[of 0] by (auto simp: hd_conv_nth)
  have ok: "\<forall>r<length matrix. \<forall>c<length (hd matrix). cell_ok function_map matrix r c"
    using rl fl by (simp add: cell_ok_def hd)
  obtain out where out: "apply_specific_mask_pattern p matrix function_map = Inr out"
    using assms(1,2,3,5) ok by (simp add: apply_specific_mask_pattern_eq hd)
  then show ?thesis using mask_twice by blast
qed

lemma demo_bits:
  "\<forall>r<length demo_matrix. \<forall>c<3. \<not> demo_function_map ! r ! c \<longrightarrow>
     demo_matrix ! r ! c = IntC 0 \<or> demo_matrix ! r ! c = IntC 1"
  by (simp add: demo_matrix_def demo_function_map_def numeral_3_eq_3 less_Suc_eq all_conj_distrib
         less_Suc_eq_0_disj)

text \<open>The theorem of C6 at a 2 by 3 matrix with one reserved cell, pattern 0.\<close>

theorem apply_specific_mask_pattern_flips_witness:
  "\<exists>out. apply_specific_mask_pattern 0 demo_matrix demo_function_map = Inr out
     \<and> out ! 0 ! 0 = IntC 1 \<and> out ! 0 ! 1 = IntC 1 \<and> out ! 0 ! 2 = StrR
     \<and> out ! 1 ! 0 = IntC 1 \<and> out ! 1 ! 1 = IntC 1 \<and> out ! 1 ! 2 = IntC 0"
proof -
  have h: "demo_matrix \<noteq> []" "\<forall>row\<in>set demo_matrix. length row = 3"
    "length demo_function_map = length demo_matrix" "\<forall>frow\<in>set demo_function_map. length frow = 3"
    by (simp_all add: demo_matrix_def demo_function_map_def)
  from apply_specific_mask_pattern_flips[of 0 demo_matrix 3 demo_function_map, OF _ _ h demo_bits]
  obtain out where out: "apply_specific_mask_pattern 0 demo_matrix demo_function_map = Inr out"
    and cells: "\<forall>r<length demo_matrix. \<forall>c<3.
          if \<not> demo_function_map ! r ! c \<and> (r + c) mod 2 = 0
          then \<exists>v. demo_matrix ! r ! c = IntC v \<and> out ! r ! c = IntC (v XOR 1)
          else out ! r ! c = demo_matrix ! r ! c"
    by auto
  have "out ! 0 ! 0 = IntC 1" "out ! 0 ! 1 = IntC 1" "out ! 0 ! 2 = StrR"
     "out ! 1 ! 0 = IntC 1" "out ! 1 ! 1 = IntC 1" "out ! 1 ! 2 = IntC 0"
    using cells[rule_format, of 0 0] cells[rule_format, of 0 1] cells[rule_format, of 0 2]
      cells[rule_format, of 1 0] cells[rule_format, of 1 1] cells[rule_format, of 1 2]
    by (simp_all add: demo_matrix_def demo_function_map_def)
  then show ?thesis using out by simp
qed

text \<open>The theorem of C10 at the same matrix, pattern 3.\<close>

theorem apply_specific_mask_pattern_involution_witness:
  "\<exists>out. apply_specific_mask_pattern 3 demo_matrix demo_function_map = Inr out
     \<and> apply_specific_mask_pattern 3 out demo_function_map = Inr demo_matrix"
proof -
  have h: "demo_matrix \<noteq> []" "\<forall>row\<in>set demo_matrix. length row = 3"
    "length demo_function_map = length demo_matrix" "\<forall>frow\<in>set demo_function_map. length frow = 3"
    by (simp_all add: demo_matrix_def demo_function_map_def)
  show ?thesis
    by (rule apply_specific_mask_pattern_involution[of 3 demo_matrix 3 demo_function_map, OF _ _ h]) simp_all
qed

section \<open>The byte-mode encoder: outcomes and bit stream\<close>

lemma length_bits_msb [simp]: "length (bits_msb k n) = k"
  by (simp add: bits_msb_def)

lemma bits_msb_Suc:
  "bits_msb (Suc k) n = bits_msb k (n div 2) @ [if odd n then CHR ''1'' else CHR ''0'']"
proof -
  have "bit n (k - i) = bit (n div 2) (k - 1 - i)" if "i < k" for i
  proof -
    from that have "k - i = Suc (k - 1 - i)" by simp
    then show ?thesis by (simp add: bit_Suc)
  qed
  then show ?thesis by (simp add: bits_msb_def bit_0)
qed

lemma bits_msb_zero: "bits_msb k 0 = replicate k CHR ''0''"
  by (simp add: bits_msb_def map_replicate_const)

lemma format_b_small: "n < 2 \<Longrightarrow> format_b n = [bit_char n]"
  by (subst format_b.simps) simp

lemma format_b_big: "\<not> n < 2 \<Longrightarrow> format_b n = format_b (n div 2) @ [bit_char (n mod 2)]"
  by (subst format_b.simps) simp

lemma bit_char_mod2: "bit_char (n mod 2) = (if odd n then CHR ''1'' else CHR ''0'')"
  by (auto simp: bit_char_def odd_iff_mod_2_eq_one)

lemma format_b_bits:
  "n < 2 ^ Suc k \<Longrightarrow>
     length (format_b n) \<le> Suc k \<and>
     replicate (Suc k - length (format_b n)) CHR ''0'' @ format_b n = bits_msb (Suc k) n"
proof (induction k arbitrary: n)
  case 0
  then have n: "n < 2" by simp
  then have "n = 0 \<or> n = 1" by arith
  then show ?case using n
    by (auto simp: format_b_small bits_msb_def bit_char_def bit_0)
next
  case (Suc k)
  show ?case
  proof (cases "n < 2")
    case True
    then have d: "n div 2 = 0" by simp
    have "bit_char n = (if odd n then CHR ''1'' else CHR ''0'')"
      using True bit_char_mod2[of n] by simp
    then show ?thesis using True
      by (simp add: format_b_small bits_msb_Suc[of "Suc k"] d bits_msb_zero
          flip: replicate_Suc)
  next
    case False
    from Suc.prems have "n div 2 < 2 ^ Suc k" by simp
    from Suc.IH[OF this]
    have len: "length (format_b (n div 2)) \<le> Suc k"
      and eq: "replicate (Suc k - length (format_b (n div 2))) CHR ''0'' @ format_b (n div 2)
                = bits_msb (Suc k) (n div 2)"
      by simp_all
    show ?thesis using False len eq
      by (simp add: format_b_big bits_msb_Suc[of "Suc k"] bit_char_mod2 Suc_diff_le
          flip: append_assoc)
  qed
qed

lemma format_0b_bits: "0 < w \<Longrightarrow> n < 2 ^ w \<Longrightarrow> format_0b w n = bits_msb w n"
proof -
  assume "0 < w" "n < 2 ^ w"
  then obtain k where "w = Suc k" by (cases w) auto
  then show ?thesis using format_b_bits[of n k] \<open>n < 2 ^ w\<close>
    by (simp add: format_0b_def)
qed

lemma length_pad_codewords [simp]: "length (pad_codewords k) = 8 * k"
  by (induction k) (simp_all add: pad_codewords_def)

lemma foldl_append_concat: "foldl (\<lambda>bs b. bs @ f b) s xs = s @ concat (map f xs)"
  by (induction xs arbitrary: s) simp_all

lemma pad_bytes_nth: "pad_bytes ! (i mod 2) = (if even i then ''11101100'' else ''00010001'')"
  by (cases "even i") (auto simp: pad_bytes_def odd_iff_mod_2_eq_one)

lemma add_pad_bytes_done: "t \<le> length bs \<Longrightarrow> add_pad_bytes t i bs = bs"
  by (subst add_pad_bytes.simps) simp

lemma add_pad_bytes_more:
  "length bs < t \<Longrightarrow>
   add_pad_bytes t i bs = add_pad_bytes t (i + 1) (bs @ pad_bytes ! (i mod 2))"
  by (subst add_pad_bytes.simps) simp

lemma add_pad_bytes_fill:
  "length bs = 8 * j \<Longrightarrow> j + n = d \<Longrightarrow>
   add_pad_bytes (d * 8) i bs = bs @ concat (map (\<lambda>k. pad_bytes ! ((i + k) mod 2)) [0..<n])"
proof (induction n arbitrary: i bs j)
  case 0
  then show ?case by (simp add: add_pad_bytes_done)
next
  case (Suc n)
  let ?bs = "bs @ pad_bytes ! (i mod 2)"
  have len: "length ?bs = 8 * Suc j" using Suc.prems by (simp add: pad_bytes_nth)
  have "add_pad_bytes (d * 8) i bs = add_pad_bytes (d * 8) (i + 1) ?bs"
    using Suc.prems by (intro add_pad_bytes_more) simp
  also have "\<dots> = ?bs @ concat (map (\<lambda>k. pad_bytes ! ((i + 1 + k) mod 2)) [0..<n])"
    using Suc.prems by (intro Suc.IH[OF len]) simp
  also have "\<dots> = bs @ concat (map (\<lambda>k. pad_bytes ! ((i + k) mod 2)) [0..<Suc n])"
    by (simp add: upt_conv_Cons map_Suc_upt[symmetric] comp_def del: upt_Suc)
  finally show ?case .
qed

lemma concat_chunks: "concat (map (\<lambda>k. take 8 (drop (8 * k) bs)) [0..<d]) = take (8 * d) bs"
proof (induction d)
  case 0
  show ?case by simp
next
  case (Suc d)
  have "take (8 * d + 8) bs = take (8 * d) bs @ take 8 (drop (8 * d) bs)"
    by (rule take_add)
  then show ?case using Suc by (simp add: add.commute)
qed

lemma split_codewords_exact:
  assumes "length bs = 8 * d"
  shows "length (split_codewords bs) = d" "concat (split_codewords bs) = bs"
    "\<forall>cw\<in>set (split_codewords bs). length cw = 8"
proof -
  have n: "(length bs + 7) div 8 = d" using assms by simp
  show "length (split_codewords bs) = d" by (simp add: split_codewords_def n)
  show "concat (split_codewords bs) = bs"
    using assms by (simp add: split_codewords_def n concat_chunks)
  show "\<forall>cw\<in>set (split_codewords bs). length cw = 8"
    using assms by (auto simp: split_codewords_def n)
qed

lemma build_codewords_stream:
  assumes bytes: "\<forall>c\<in>set data. c \<le> 255" and room: "length data + 2 \<le> d" and small: "length data \<le> 255"
  shows "length (build_codewords data d) = d"
    and "\<forall>cw\<in>set (build_codewords data d). length cw = 8"
    and "concat (build_codewords data d) =
          ''0100'' @ bits_msb 8 (length data) @ concat (map (bits_msb 8) data)
          @ replicate 4 CHR ''0'' @ pad_codewords (d - (length data + 2))"
proof -
  let ?s1 = "''0100'' @ format_0b 8 (length data)"
  let ?s2 = "foldl (\<lambda>bs byte. bs @ format_0b 8 byte) ?s1 data"
  let ?s3 = "?s2 @ replicate 4 CHR ''0''"
  let ?s4 = "?s3 @ pad_codewords (d - (length data + 2))"
  have fmt: "format_0b 8 c = bits_msb 8 c" if "c \<le> 255" for c
    using that by (intro format_0b_bits) simp_all
  have m: "map (format_0b 8) data = map (bits_msb 8) data"
    using bytes fmt by simp
  have s2: "?s2 = ''0100'' @ bits_msb 8 (length data) @ concat (map (bits_msb 8) data)"
    using small by (simp add: foldl_append_concat fmt m)
  have l2: "length ?s2 = 12 + 8 * length data"
    unfolding s2 by (simp add: length_concat comp_def sum_list_triv)
  have tm: "nat (min 4 (int (d * 8) - int (length ?s2))) = 4"
    using room unfolding l2 by simp
  have l3: "length ?s3 = 8 * (length data + 2)" using l2 by simp
  have l3mod: "length ?s3 mod 8 = 0" unfolding l3 by simp
  have pad: "add_pad_bytes (d * 8) 0 ?s3 = ?s4"
    using add_pad_bytes_fill[OF l3, of "d - (length data + 2)" d 0] room
    by (simp add: pad_bytes_nth pad_codewords_def)
  have l4: "length ?s4 = 8 * d"
    using room l3 by simp
  have b: "build_codewords data d = take d (split_codewords ?s4)"
    unfolding build_codewords_def Let_def tm using l3mod pad by simp
  have t: "take d (split_codewords ?s4) = split_codewords ?s4"
    using split_codewords_exact(1)[OF l4] by simp
  show "length (build_codewords data d) = d"
    unfolding b t by (rule split_codewords_exact(1)[OF l4])
  show "\<forall>cw\<in>set (build_codewords data d). length cw = 8"
    unfolding b t by (rule split_codewords_exact(3)[OF l4])
  show "concat (build_codewords data d) =
          ''0100'' @ bits_msb 8 (length data) @ concat (map (bits_msb 8) data)
          @ replicate 4 CHR ''0'' @ pad_codewords (d - (length data + 2))"
    unfolding b t split_codewords_exact(2)[OF l4] using s2 by simp
qed

lemma encode_iso_8859_1_eq:
  "encode_iso_8859_1 data = (if \<forall>c\<in>set data. c \<le> 255 then Some data else None)"
  by (simp add: encode_iso_8859_1_def list_all_iff)

text \<open>
  Claim C3.  \<open>encode_byte_mode\<close> fails with \<open>InvalidCharacter\<close> exactly when some
  character of the input lies outside ISO-8859-1 (a code point above 255); otherwise it
  fails with \<open>PayloadTooLong\<close> exactly when the byte length exceeds 32; otherwise it
  succeeds, with version 1 and 19 data codewords when the byte length is at most 17 and
  with version 2 and 34 data codewords when it is at most 32.
\<close>

theorem encode_byte_mode_outcomes:
  "(encode_byte_mode data = Inl InvalidCharacter \<longleftrightarrow> (\<exists>c\<in>set data. 255 < c))
   \<and> ((\<forall>c\<in>set data. c \<le> 255) \<longrightarrow>
        (encode_byte_mode data = Inl PayloadTooLong \<longleftrightarrow> 32 < length data))
   \<and> ((\<forall>c\<in>set data. c \<le> 255) \<and> length data \<le> 32 \<longrightarrow>
        (\<exists>cws. encode_byte_mode data = Inr (cws, if length data \<le> 17 then 1 else 2)
           \<and> length cws = (if length data \<le> 17 then 19 else 34)
           \<and> (\<forall>cw\<in>set cws. length cw = 8)))"
proof (cases "\<forall>c\<in>set data. c \<le> 255")
  case False
  then have "encode_byte_mode data = Inl InvalidCharacter"
    by (simp add: encode_byte_mode_def encode_iso_8859_1_eq)
  then show ?thesis using False by (auto simp: not_le)
next
  case True
  then have enc: "encode_iso_8859_1 data = Some data" by (simp add: encode_iso_8859_1_eq)
  have nobad: "\<not> (\<exists>c\<in>set data. 255 < c)" using True by (auto simp: not_less)
  show ?thesis
  proof (cases "length data \<le> 32")
    case long: False
    then have "encode_byte_mode data = Inl PayloadTooLong"
      by (simp add: encode_byte_mode_def enc)
    then show ?thesis using long nobad by simp
  next
    case fits: True
    show ?thesis
    proof (cases "length data \<le> 17")
      case v1: True
      have "length (build_codewords data 19) = 19" "\<forall>cw\<in>set (build_codewords data 19). length cw = 8"
        by (rule build_codewords_stream(1,2)[OF True]; use v1 in simp)+
      then show ?thesis using v1 nobad by (simp add: encode_byte_mode_def enc)
    next
      case v2: False
      have "length (build_codewords data 34) = 34" "\<forall>cw\<in>set (build_codewords data 34). length cw = 8"
        by (rule build_codewords_stream(1,2)[OF True]; use fits in simp)+
      then show ?thesis using v2 fits nobad by (simp add: encode_byte_mode_def enc)
    qed
  qed
qed

text \<open>
  The theorem of C3 at an input with the euro sign, at 33 and at 18 letters \<open>A\<close>, and
  at \<open>HELLO WORLD\<close>.
\<close>

theorem encode_byte_mode_outcomes_witness:
  "encode_byte_mode [8364] = Inl InvalidCharacter
   \<and> encode_byte_mode (replicate 33 65) = Inl PayloadTooLong
   \<and> (\<exists>cws. encode_byte_mode hello = Inr (cws, 1) \<and> length cws = 19)
   \<and> (\<exists>cws. encode_byte_mode (replicate 18 65) = Inr (cws, 2) \<and> length cws = 34)"
proof -
  have "encode_byte_mode [8364] = Inl InvalidCharacter"
    using encode_byte_mode_outcomes[of "[8364]"] by simp
  moreover have "encode_byte_mode (replicate 33 65) = Inl PayloadTooLong"
    using encode_byte_mode_outcomes[of "replicate 33 65"] by simp
  moreover have "\<exists>cws. encode_byte_mode hello = Inr (cws, 1) \<and> length cws = 19"
    using encode_byte_mode_outcomes[of hello] by (auto simp: hello_def)
  moreover have "\<exists>cws. encode_byte_mode (replicate 18 65) = Inr (cws, 2) \<and> length cws = 34"
    using encode_byte_mode_outcomes[of "replicate 18 65"] by auto
  ultimately show ?thesis by blast
qed

text \<open>
  Claim C4.  For an input of ISO-8859-1 byte length at most 32, the concatenation of
  the data codewords that \<open>encode_byte_mode\<close> returns is exactly \<open>8 * D\<close> bits long
  and is: the mode indicator \<open>0100\<close>, the 8-bit character count, the payload bytes
  each as 8 bits most significant first, up to 4 terminator zero bits (truncated at the
  capacity \<open>8 * D\<close>), zero bits to the next byte boundary, and alternating pad
  codewords \<open>11101100\<close> and \<open>00010001\<close>, starting with \<open>11101100\<close>, up to
  \<open>8 * D\<close> bits.
\<close>

theorem encode_byte_mode_bit_stream:
  assumes "\<forall>c\<in>set data. c \<le> 255" and "length data \<le> 32"
  shows "\<exists>cws version. encode_byte_mode data = Inr (cws, version) \<and>
     (let D = (if length data \<le> 17 then 19 else 34);
          used = 12 + 8 * length data;
          t = min 4 (8 * D - used);
          z = (8 - (used + t) mod 8) mod 8;
          k = (8 * D - (used + t + z)) div 8
      in length (concat cws) = 8 * D
         \<and> concat cws =
             ''0100'' @ bits_msb 8 (length data) @ concat (map (bits_msb 8) data)
             @ replicate t CHR ''0'' @ replicate z CHR ''0'' @ pad_codewords k)"
proof -
  define D :: nat where "D = (if length data \<le> 17 then 19 else 34)"
  have room: "length data + 2 \<le> D" using assms(2) by (auto simp: D_def)
  have small: "length data \<le> 255" using assms(2) by simp
  have enc: "encode_byte_mode data = Inr (build_codewords data D, if length data \<le> 17 then 1 else 2)"
    using assms by (simp add: encode_byte_mode_def encode_iso_8859_1_eq D_def)
  have cat: "concat (build_codewords data D) =
          ''0100'' @ bits_msb 8 (length data) @ concat (map (bits_msb 8) data)
          @ replicate 4 CHR ''0'' @ pad_codewords (D - (length data + 2))"
    by (rule build_codewords_stream(3)[OF assms(1) room small])
  have len: "length (concat (build_codewords data D)) = 8 * D"
    using room unfolding cat by (simp add: length_concat comp_def sum_list_triv)
  have t: "min 4 (8 * D - (12 + 8 * length data)) = 4" using room by simp
  have z: "(8 - (12 + 8 * length data + 4) mod 8) mod 8 = 0"
  proof -
    have "12 + 8 * length data + 4 = 8 * (length data + 2)" by simp
    then show ?thesis by (simp del: mult_Suc_right)
  qed
  have k: "(8 * D - (12 + 8 * length data + 4 + 0)) div 8 = D - (length data + 2)"
  proof -
    have "8 * D - (12 + 8 * length data + 4 + 0) = 8 * (D - (length data + 2))" by simp
    then show ?thesis by (simp del: mult_Suc_right)
  qed
  show ?thesis
    unfolding enc Let_def D_def[symmetric] t z k using cat len by simp
qed

text \<open>The theorem of C4 at \<open>HELLO WORLD\<close>: 152 bits, 4 terminator bits, 6 pad codewords.\<close>

theorem encode_byte_mode_bit_stream_witness:
  "\<exists>cws version. encode_byte_mode hello = Inr (cws, version)
     \<and> length (concat cws) = 152
     \<and> concat cws = ''0100'' @ bits_msb 8 11 @ concat (map (bits_msb 8) hello)
         @ replicate 4 CHR ''0'' @ pad_codewords 6"
proof -
  have h: "\<forall>c\<in>set hello. c \<le> 255" "length hello \<le> 32" by (simp_all add: hello_def)
  have n: "length hello = 11" by (simp add: hello_def)
  show ?thesis
    using encode_byte_mode_bit_stream[OF h] unfolding n Let_def by simp
qed

section \<open>The codewords of HELLO WORLD\<close>

text \<open>The number of error-correction codewords does not depend on the data.\<close>

lemma length_xor_into [simp]: "length (xor_into xs ys) = length ys"
  by (induction xs ys rule: xor_into.induct) simp_all

lemma length_poly_divide_steps [simp]: "length (poly_divide_steps n g p) = length p - n"
  by (induction n arbitrary: p) (simp_all split: list.splits)

lemma length_rs_remainder [simp]: "length (rs_remainder msg e) = e"
  by (simp add: rs_remainder_def)

lemma slice_from_suffix: "length ys = n \<Longrightarrow> 0 < n \<Longrightarrow> slice_from (xs @ ys) (- int n) = ys"
  by (auto simp: slice_from_def)

lemma generate_error_correction_eq:
  "version = 1 \<or> version = 2 \<Longrightarrow>
   generate_error_correction data version =
     Inr (map (\<lambda>b. format_0b 8 (nat b)) (rs_remainder data (if version = 1 then 7 else 10)))"
  by (auto simp: generate_error_correction_def rs_encode_def Let_def slice_from_suffix)

lemma hello_codewords:
  "encode_byte_mode hello =
     Inr ([''01000000'', ''10110100'', ''10000100'', ''01010100'', ''11000100'',
           ''11000100'', ''11110010'', ''00000101'', ''01110100'', ''11110101'',
           ''00100100'', ''11000100'', ''01000000'', ''11101100'', ''00010001'',
           ''11101100'', ''00010001'', ''11101100'', ''00010001''], 1)"
  by code_simp

lemma hello_codeword_ints:
  "map_err int_base2
     [''01000000'', ''10110100'', ''10000100'', ''01010100'', ''11000100'',
      ''11000100'', ''11110010'', ''00000101'', ''01110100'', ''11110101'',
      ''00100100'', ''11000100'', ''01000000'', ''11101100'', ''00010001'',
      ''11101100'', ''00010001'', ''11101100'', ''00010001''] =
   Inr [0x40, 0xB4, 0x84, 0x54, 0xC4, 0xC4, 0xF2, 0x05, 0x74, 0xF5, 0x24, 0xC4, 0x40,
        0xEC, 0x11, 0xEC, 0x11, 0xEC, 0x11]"
  by code_simp

text \<open>
  Claim C5, as amended.  For the input \<open>HELLO WORLD\<close> (11 bytes),
  \<open>encode_byte_mode\<close> selects version 1, the first three data codewords are
  \<open>0x40, 0xB4, 0x84\<close> (mode \<open>0100\<close>, count \<open>00001011\<close>, then \<open>H = 01001000\<close>),
  and the data codewords together with the error-correction codewords are 26.
\<close>

theorem hello_world_codewords:
  "\<exists>cws ints ecc. encode_byte_mode hello = Inr (cws, 1)
     \<and> map_err int_base2 cws = Inr ints
     \<and> take 3 ints = [0x40, 0xB4, 0x84]
     \<and> generate_error_correction ints 1 = Inr ecc
     \<and> length (cws @ ecc) = 26"
proof (intro exI conjI)
  show "encode_byte_mode hello = Inr (hello_data_cw, 1)"
    by (simp only: hello_codewords hello_data_cw_def)
  show "map_err int_base2 hello_data_cw = Inr hello_data_cw_int"
    by (simp only: hello_codeword_ints hello_data_cw_def hello_data_cw_int_def)
  show "take 3 hello_data_cw_int = [0x40, 0xB4, 0x84]"
    by (simp add: hello_data_cw_int_def)
  show "generate_error_correction hello_data_cw_int 1 =
      Inr (map (\<lambda>b. format_0b 8 (nat b)) (rs_remainder hello_data_cw_int 7))"
    by (simp add: generate_error_correction_eq)
  show "length (hello_data_cw @ map (\<lambda>b. format_0b 8 (nat b)) (rs_remainder hello_data_cw_int 7)) = 26"
    by (simp add: hello_data_cw_def)
qed

text \<open>
  Claim C5 as the specification states it, with the codewords \<open>0x40, 0xB5, 0x94\<close>,
  does not hold.
\<close>

theorem hello_world_codewords_counterexample:
  "\<not> (\<exists>cws ints ecc. encode_byte_mode hello = Inr (cws, 1)
     \<and> map_err int_base2 cws = Inr ints
     \<and> take 3 ints = [0x40, 0xB5, 0x94]
     \<and> generate_error_correction ints 1 = Inr ecc
     \<and> length (cws @ ecc) = 26)"
proof
  assume "\<exists>cws ints ecc. encode_byte_mode hello = Inr (cws, 1)
     \<and> map_err int_base2 cws = Inr ints
     \<and> take 3 ints = [0x40, 0xB5, 0x94]
     \<and> generate_error_correction ints 1 = Inr ecc
     \<and> length (cws @ ecc) = 26"
  then obtain cws ints where c: "encode_byte_mode hello = Inr (cws, 1)"
    and i: "map_err int_base2 cws = Inr ints" and t: "take 3 ints = [0x40, 0xB5, 0x94]"
    by blast
  from c have "cws = hello_data_cw"
    by (simp only: hello_codewords hello_data_cw_def sum.inject prod.inject)
  with i have "ints = hello_data_cw_int"
    by (simp only: hello_codeword_ints hello_data_cw_def hello_data_cw_int_def sum.inject)
  with t show False by (simp add: hello_data_cw_int_def)
qed

section \<open>Placement of the format information\<close>

text \<open>
  Claim C1 says that the 15 primary cells hold \<open>b[0] .. b[14]\<close> in the order of
  \<open>FORMAT_INFO_COORDINATES_PRIMARY\<close> in the returned matrix.  The code does not do
  that: after the primary cells are written, the third loop writes \<open>b[8] .. b[14]\<close>
  into the cells \<open>(0,8) .. (5,8), (7,8)\<close> from the top down, the reverse of the
  primary order, and the last loop writes \<open>b[8]\<close> into \<open>(8,0)\<close> and returns in its
  first iteration.  For the format string of level L and mask 3,
  \<open>111100010011101\<close>, on an all-light 21 by 21 matrix the primary cells hold
  \<open>011100011011100\<close>: \<open>(8,0)\<close> holds \<open>b[8] = 0\<close> and not \<open>b[0] = 1\<close>,
  \<open>(7,8)\<close> holds \<open>b[14] = 1\<close> and not \<open>b[8] = 0\<close>, and \<open>(0,8)\<close> holds
  \<open>b[8] = 0\<close> and not \<open>b[14] = 1\<close>.
\<close>

theorem place_format_information_primary_overwritten:
  "get_format_string ''01'' ''011'' = Inr ''111100010011101''
   \<and> (\<exists>m. place_format_information zero_matrix_21 ''111100010011101'' 21 = Inr (Some m)
        \<and> map_err (\<lambda>(r, c). get_cell m r c) FORMAT_INFO_COORDINATES_PRIMARY
            = Inr (map IntC [0, 1, 1, 1, 0, 0, 0, 1, 1, 0, 1, 1, 1, 0, 0])
        \<and> get_cell m 8 0 = Inr (IntC 0)
        \<and> get_cell m 7 8 = Inr (IntC 1)
        \<and> get_cell m 0 8 = Inr (IntC 0))"
proof -
  have f: "get_format_string ''01'' ''011'' = Inr ''111100010011101''"
    by code_simp
  have "(case place_format_information zero_matrix_21 ''111100010011101'' 21 of
          Inr (Some m) \<Rightarrow>
            map_err (\<lambda>(r, c). get_cell m r c) FORMAT_INFO_COORDINATES_PRIMARY
              = Inr (map IntC [0, 1, 1, 1, 0, 0, 0, 1, 1, 0, 1, 1, 1, 0, 0])
            \<and> get_cell m 8 0 = Inr (IntC 0)
            \<and> get_cell m 7 8 = Inr (IntC 1)
            \<and> get_cell m 0 8 = Inr (IntC 0)
        | _ \<Rightarrow> False)"
    by code_simp
  then show ?thesis using f by (auto split: sum.splits option.splits)
qed

section \<open>The penalty rules on a concrete matrix\<close>

text \<open>The penalty rules of the source and of the specification on the 11 by 11 matrix.\<close>

lemma penalty_matrix_choice:
  "find_best_pattern penalty_matrix penalty_function_map = Inr (penalty_masked_2, 2)"
  by code_simp

lemma penalty_matrix_rules:
  "calculate_total_penalty_score (eval_matrix_base penalty_masked_2) = Inr (78, [10, 18, 40, 10])"
  by code_simp

lemma penalty_matrix_totals:
  "map (masked_penalty penalty_matrix penalty_function_map) [0, 1, 2, 3, 4, 5, 6, 7] =
     map Inr [182, 120, 78, 84, 78, 149, 116, 96]"
  by code_simp

lemma penalty_matrix_spec_rules:
  "[spec_N1 (light_reserved penalty_masked_2), spec_N2 (light_reserved penalty_masked_2),
    spec_N3 (light_reserved penalty_masked_2), spec_N4 (light_reserved penalty_masked_2)] =
     [10, 18, 40, 10]"
  by code_simp

section \<open>The choice of the mask pattern\<close>

lemma pick_best_min:
  assumes "s0 = sc b0" "\<forall>p\<in>set ps. b0 < p" "sorted_wrt (<) ps" "pick_best sc (s0, b0) ps = (s, b)"
  shows "s = sc b \<and> (b = b0 \<or> b \<in> set ps) \<and> s \<le> s0 \<and> (\<forall>p\<in>set ps. s \<le> sc p)
     \<and> (\<forall>p\<in>insert b0 (set ps). sc p = s \<longrightarrow> b \<le> p)"
  using assms
proof (induction ps arbitrary: s0 b0)
  case Nil
  then show ?case by auto
next
  case (Cons p ps)
  show ?case
  proof (cases "sc p < s0")
    case True
    have pb: "pick_best sc (sc p, p) ps = (s, b)" using Cons.prems(4) True by simp
    have "\<forall>q\<in>set ps. p < q" using Cons.prems(3) by simp
    moreover have "sorted_wrt (<) ps" using Cons.prems(3) by simp
    ultimately have IH: "s = sc b \<and> (b = p \<or> b \<in> set ps) \<and> s \<le> sc p \<and> (\<forall>q\<in>set ps. s \<le> sc q)
        \<and> (\<forall>q\<in>insert p (set ps). sc q = s \<longrightarrow> b \<le> q)"
      using Cons.IH[of "sc p" p] pb by blast
    then show ?thesis using True Cons.prems(1) by auto
  next
    case False
    have pb: "pick_best sc (s0, b0) ps = (s, b)" using Cons.prems(4) False by simp
    have "\<forall>q\<in>set ps. b0 < q" using Cons.prems(2) by simp
    moreover have "sorted_wrt (<) ps" using Cons.prems(3) by simp
    ultimately have IH: "s = sc b \<and> (b = b0 \<or> b \<in> set ps) \<and> s \<le> s0 \<and> (\<forall>q\<in>set ps. s \<le> sc q)
        \<and> (\<forall>q\<in>insert b0 (set ps). sc q = s \<longrightarrow> b \<le> q)"
      using Cons.IH[of s0 b0] Cons.prems(1) pb by blast
    have b0p: "b0 < p" using Cons.prems(2) by simp
    have tie: "sc p = s \<longrightarrow> b \<le> p"
    proof
      assume "sc p = s"
      then have "s = s0" using IH False by simp
      then have "b \<le> b0" using IH Cons.prems(1) by simp
      then show "b \<le> p" using b0p by simp
    qed
    show ?thesis using IH False tie by auto
  qed
qed

lemma apply_mask_rect:
  assumes "0 \<le> p" "p \<le> 7" "m \<noteq> []" "\<forall>row\<in>set m. length row = n"
    "length fm = length m" "\<forall>frow\<in>set fm. length frow = n"
  shows "apply_specific_mask_pattern p m fm =
     Inr (masked_rows (the (MASK_CONDITION_FUNCTIONS p)) fm m n (length m))"
proof -
  have rl: "length (m ! r) = n" if "r < length m" for r
    using assms(4) that by simp
  have fl: "length (fm ! r) = n" if "r < length m" for r
    using assms(5,6) that by simp
  have "fm \<noteq> []" using assms(3,5) by auto
  then have hd: "length (hd m) = n" "length (hd fm) = n"
    using assms(3) rl[of 0] fl[of 0] by (auto simp: hd_conv_nth)
  have ok: "\<forall>r<length m. \<forall>c<length (hd m). cell_ok fm m r c"
    using rl fl by (simp add: cell_ok_def hd)
  show ?thesis
    using assms(1,2,3,5) ok by (simp add: apply_specific_mask_pattern_eq hd)
qed

lemma length_eval_matrix_base [simp]: "length (eval_matrix_base m) = length m"
  by (simp add: eval_matrix_base_def)

lemma nth_eval_matrix_base:
  "r < length m \<Longrightarrow> eval_matrix_base m ! r = map (\<lambda>val. case val of IntC x \<Rightarrow> IntC x | _ \<Rightarrow> IntC 0) (m ! r)"
  by (simp add: eval_matrix_base_def)

lemma rows_eval_matrix_base:
  "\<forall>row\<in>set m. length row = n \<Longrightarrow> \<forall>row\<in>set (eval_matrix_base m). length row = n"
  by (auto simp: eval_matrix_base_def)

lemma eval_matrix_base_masked:
  assumes rows: "\<forall>row\<in>set m. length row = n"
    and reserved: "\<forall>r<length m. \<forall>c<n. (\<forall>v. m ! r ! c \<noteq> IntC v) \<longrightarrow> fm ! r ! c"
  shows "eval_matrix_base (masked_rows f fm m n (length m)) =
         masked_rows f fm (eval_matrix_base m) n (length m)"
proof (rule nth_equalityI)
  show "length (eval_matrix_base (masked_rows f fm m n (length m))) =
        length (masked_rows f fm (eval_matrix_base m) n (length m))"
    by simp
next
  fix r assume "r < length (eval_matrix_base (masked_rows f fm m n (length m)))"
  then have r: "r < length m" by simp
  have rl: "length (m ! r) = n" using rows r by simp
  show "eval_matrix_base (masked_rows f fm m n (length m)) ! r =
        masked_rows f fm (eval_matrix_base m) n (length m) ! r"
  proof (rule nth_equalityI)
    show "length (eval_matrix_base (masked_rows f fm m n (length m)) ! r) =
          length (masked_rows f fm (eval_matrix_base m) n (length m) ! r)"
      using r by (simp add: nth_eval_matrix_base length_nth_masked_rows)
  next
    fix c assume "c < length (eval_matrix_base (masked_rows f fm m n (length m)) ! r)"
    then have c: "c < n" using r rl by (simp add: nth_eval_matrix_base length_nth_masked_rows)
    have res: "(\<forall>v. m ! r ! c \<noteq> IntC v) \<longrightarrow> fm ! r ! c" using reserved r c by blast
    have l: "eval_matrix_base (masked_rows f fm m n (length m)) ! r ! c =
        (case (if \<not> fm ! r ! c \<and> f r c then xor_cell (m ! r ! c) else m ! r ! c) of
           IntC x \<Rightarrow> IntC x | _ \<Rightarrow> IntC 0)"
      using r c rl by (simp add: nth_eval_matrix_base length_nth_masked_rows nth_masked_rows)
    have rr: "masked_rows f fm (eval_matrix_base m) n (length m) ! r ! c =
        (if \<not> fm ! r ! c \<and> f r c
         then xor_cell (case m ! r ! c of IntC x \<Rightarrow> IntC x | _ \<Rightarrow> IntC 0)
         else (case m ! r ! c of IntC x \<Rightarrow> IntC x | _ \<Rightarrow> IntC 0))"
      using r c rl nth_masked_rows[of r "eval_matrix_base m" "length m" c f fm n]
      by (simp add: nth_eval_matrix_base)
    show "eval_matrix_base (masked_rows f fm m n (length m)) ! r ! c =
          masked_rows f fm (eval_matrix_base m) n (length m) ! r ! c"
      unfolding l rr using res by (cases "m ! r ! c") (auto simp: xor_cell_def)
  qed
qed

lemma rows_masked_rows:
  "\<forall>row\<in>set m. length row = n \<Longrightarrow> \<forall>row\<in>set (masked_rows f fm m k (length m)). length row = n"
  by (auto simp: in_set_conv_nth length_nth_masked_rows all_set_conv_all_nth)

lemma calculate_total_penalty_score_total:
  assumes "\<forall>row\<in>set m. length row = length m"
  shows "\<exists>t ps. calculate_total_penalty_score m = Inr (t, ps)"
proof -
  have "\<not> list_ex (\<lambda>row. length row < length m) m"
    using assms by (auto simp: list_ex_iff)
  then have "\<exists>p1. calculate_penalty_rule1 m = Inr p1"
    by (simp add: calculate_penalty_rule1_def Let_def)
  then show ?thesis
    by (auto simp: calculate_total_penalty_score_def Let_def)
qed

lemma upto_0_7: "[0..7] = [0, 1, 2, 3, 4, 5, 6, 7 :: int]"
  by (simp add: upto_rec1)

lemma try_pattern_loop:
  assumes app_e: "\<forall>p\<in>set ps. apply_specific_mask_pattern p (eval_matrix_base m) fm = Inr (em p)"
    and app_m: "\<forall>p\<in>set ps. apply_specific_mask_pattern p m fm = Inr (mm p)"
    and score: "\<forall>p\<in>set ps. \<exists>pl. calculate_total_penalty_score (em p) = Inr (sc p, pl)"
  shows "fold_err (try_pattern m fm) ps (Some s0, b0, Some (mm b0)) =
     Inr (Some (fst (pick_best sc (s0, b0) ps)), snd (pick_best sc (s0, b0) ps),
          Some (mm (snd (pick_best sc (s0, b0) ps))))"
  using assms
proof (induction ps arbitrary: s0 b0)
  case Nil
  show ?case by simp
next
  case (Cons p ps)
  obtain pl where pl: "calculate_total_penalty_score (em p) = Inr (sc p, pl)"
    using Cons.prems(3) by auto
  have step: "try_pattern m fm p (Some s0, b0, Some (mm b0)) =
      Inr (if sc p < s0 then (Some (sc p), p, Some (mm p)) else (Some s0, b0, Some (mm b0)))"
    using Cons.prems(1,2) pl by (simp add: try_pattern_def)
  have IH: "fold_err (try_pattern m fm) ps (Some s1, b1, Some (mm b1)) =
     Inr (Some (fst (pick_best sc (s1, b1) ps)), snd (pick_best sc (s1, b1) ps),
          Some (mm (snd (pick_best sc (s1, b1) ps))))" for s1 b1
    using Cons.IH[of s1 b1] Cons.prems by simp
  show ?case
    by (cases "sc p < s0") (simp_all add: step IH)
qed

declare pick_best.simps [simp del]

lemma find_best_pattern_pick:
  assumes app_e: "\<And>p. 0 \<le> p \<Longrightarrow> p \<le> 7 \<Longrightarrow>
                    apply_specific_mask_pattern p (eval_matrix_base m) fm = Inr (em p)"
    and app_m: "\<And>p. 0 \<le> p \<Longrightarrow> p \<le> 7 \<Longrightarrow> apply_specific_mask_pattern p m fm = Inr (mm p)"
    and score: "\<And>p. \<exists>pl. calculate_total_penalty_score (em p) = Inr (sc p, pl)"
  shows "find_best_pattern m fm =
     Inr (mm (snd (pick_best sc (sc 0, 0) [1, 2, 3, 4, 5, 6, 7])),
          snd (pick_best sc (sc 0, 0) [1, 2, 3, 4, 5, 6, 7]))"
proof -
  obtain pl where pl: "calculate_total_penalty_score (em 0) = Inr (sc 0, pl)"
    using score by blast
  have first: "try_pattern m fm 0 (None, - 1, None) = Inr (Some (sc 0), 0, Some (mm 0))"
    using app_e[of 0] app_m[of 0] pl by (simp add: try_pattern_def)
  have rng: "0 \<le> p \<and> p \<le> 7" if "p \<in> set [1, 2, 3, 4, 5, 6, 7]" for p :: int
    using that by auto
  have rest: "fold_err (try_pattern m fm) [1, 2, 3, 4, 5, 6, 7] (Some (sc 0), 0, Some (mm 0)) =
     Inr (Some (fst (pick_best sc (sc 0, 0) [1, 2, 3, 4, 5, 6, 7])),
          snd (pick_best sc (sc 0, 0) [1, 2, 3, 4, 5, 6, 7]),
          Some (mm (snd (pick_best sc (sc 0, 0) [1, 2, 3, 4, 5, 6, 7]))))"
  proof (rule try_pattern_loop)
    show "\<forall>p\<in>set [1, 2, 3, 4, 5, 6, 7]. apply_specific_mask_pattern p (eval_matrix_base m) fm = Inr (em p)"
      using app_e rng by blast
    show "\<forall>p\<in>set [1, 2, 3, 4, 5, 6, 7]. apply_specific_mask_pattern p m fm = Inr (mm p)"
      using app_m rng by blast
    show "\<forall>p\<in>set [1, 2, 3, 4, 5, 6, 7]. \<exists>pl. calculate_total_penalty_score (em p) = Inr (sc p, pl)"
      using score by blast
  qed
  have "fold_err (try_pattern m fm) [0..7] (None, - 1, None) =
     fold_err (try_pattern m fm) [1, 2, 3, 4, 5, 6, 7] (Some (sc 0), 0, Some (mm 0))"
    unfolding upto_0_7 by (simp only: fold_err.simps first ebind_simps)
  then show ?thesis by (simp only: find_best_pattern_def rest ebind_simps prod.case option.case)
qed

lemma foldl_add: "foldl (\<lambda>p x. p + f x) a xs = a + sum_list (map f xs)" for a :: int
  by (induction xs arbitrary: a) (simp_all add: algebra_simps)

lemma foldl_add_if:
  "foldl (\<lambda>p x. if P x then p + k else p) a xs = a + (\<Sum>x\<leftarrow>xs. if P x then k else 0)" for a :: int
  by (induction xs arbitrary: a) (simp_all add: algebra_simps)

lemma spec_runs_replicate: "spec_runs (replicate (Suc k) x) = [Suc k]"
proof -
  have "takeWhile (\<lambda>y. y = x) (replicate k x) = replicate k x"
    by (simp add: takeWhile_eq_all_conv)
  moreover have "dropWhile (\<lambda>y. y = x) (replicate k x) = []"
    by (simp add: dropWhile_eq_Nil_conv)
  ultimately show ?thesis by simp
qed

lemma replicate_Cons_shift: "replicate k x @ x # ys = replicate (Suc k) x @ ys"
  by (induction k) simp_all

lemma spec_runs_replicate_append:
  assumes "y \<noteq> x"
  shows "spec_runs (replicate (Suc k) x @ y # ys) = Suc k # spec_runs (y # ys)"
proof -
  have "takeWhile (\<lambda>z. z = x) (replicate k x @ y # ys) = replicate k x"
    by (induction k) (use assms in auto)
  moreover have "dropWhile (\<lambda>z. z = x) (replicate k x @ y # ys) = y # ys"
    by (induction k) (use assms in auto)
  ultimately show ?thesis by (simp del: spec_runs.simps add: spec_runs.simps(2)[of x])
qed

lemma scan_line_runs:
  "scan_line (map IntC xs) (Suc k) (IntC x) pen =
     pen + spec_line_penalty (replicate (Suc k) x @ xs)"
proof (induction xs arbitrary: k x pen)
  case Nil
  show ?case
    unfolding append_Nil2 spec_line_penalty_def spec_runs_replicate
    by (simp add: spec_run_penalty_def)
next
  case (Cons y ys)
  show ?case
  proof (cases "y = x")
    case True
    have "scan_line (map IntC (y # ys)) (Suc k) (IntC x) pen =
        scan_line (map IntC ys) (Suc (Suc k)) (IntC x) pen"
      using True by simp
    also have "\<dots> = pen + spec_line_penalty (replicate (Suc (Suc k)) x @ ys)"
      by (rule Cons.IH)
    finally show ?thesis unfolding True by (simp only: replicate_Cons_shift)
  next
    case False
    have r: "spec_line_penalty (replicate (Suc k) x @ y # ys) =
        spec_run_penalty (Suc k) + spec_line_penalty (y # ys)"
      unfolding spec_line_penalty_def spec_runs_replicate_append[OF False] by simp
    have "scan_line (map IntC (y # ys)) (Suc k) (IntC x) pen =
        scan_line (map IntC ys) (Suc 0) (IntC y) (pen + spec_run_penalty (Suc k))"
      using False by (simp add: spec_run_penalty_def)
    also have "\<dots> = pen + spec_run_penalty (Suc k) + spec_line_penalty (y # ys)"
      using Cons.IH[of 0 y "pen + spec_run_penalty (Suc k)"] by simp
    finally show ?thesis using r by simp
  qed
qed

lemma scan_line_whole:
  assumes "line \<noteq> []" "\<forall>i<length line. g i = IntC (line ! i)"
  shows "scan_line (map g [1..<length line]) 1 (g 0) pen = pen + spec_line_penalty line"
proof -
  obtain x xs where l: "line = x # xs" using assms(1) by (cases line) auto
  have "map g [1..<length line] = map IntC xs"
  proof (rule nth_equalityI)
    show "length (map g [1..<length line]) = length (map IntC xs)"
      by (simp add: l del: upt_Suc)
    fix i assume "i < length (map g [1..<length line])"
    then have i: "i < length xs" by (simp add: l del: upt_Suc)
    then have "map g [1..<length line] ! i = g (Suc i)" by (simp add: l del: upt_Suc)
    also have "\<dots> = IntC (xs ! i)" using assms(2) i by (simp add: l)
    finally show "map g [1..<length line] ! i = map IntC xs ! i" using i by simp
  qed
  moreover have "g 0 = IntC x" using assms(2) l by simp
  ultimately show ?thesis using scan_line_runs[of xs 0 x pen] l by simp
qed


lemma foldl_add_cong:
  fixes a :: int
  assumes "\<And>x p. x \<in> set xs \<Longrightarrow> h p x = p + f x"
  shows "foldl h a xs = a + sum_list (map f xs)"
  using assms by (induction xs arbitrary: a) (simp_all add: algebra_simps)

lemma map_nth_f: "map (\<lambda>i. f (xs ! i)) [0..<length xs] = map f xs"
  by (rule nth_equalityI) simp_all

lemma length_columns [simp]: "length (spec_columns M) = length M"
  by (simp add: spec_columns_def)

lemma nth_columns: "c < length M \<Longrightarrow> spec_columns M ! c = map (\<lambda>row. row ! c) M"
  by (simp add: spec_columns_def)

lemma take_drop_nth:
  "r + k \<le> length xs \<Longrightarrow> map (\<lambda>i. f (xs ! i)) [r..<r + k] = map f (take k (drop r xs))"
  by (rule nth_equalityI) simp_all

lemma calculate_penalty_rule1_N1:
  assumes ne: "M \<noteq> []" and sq: "\<forall>row\<in>set M. length row = length M"
  shows "calculate_penalty_rule1 (map (map IntC) M) = Inr (spec_N1 M)"
proof -
  let ?E = "map (map IntC) M" and ?n = "length M"
  have nolt: "\<not> list_ex (\<lambda>row. length row < length ?E) ?E"
    using sq by (auto simp: list_ex_iff)
  have rowlen: "length (M ! r) = ?n" if "r < ?n" for r using sq that by simp
  have rowstep: "scan_line (map (\<lambda>c. ?E ! r ! c) [1..<?n]) 1 (?E ! r ! 0) pen
      = pen + spec_line_penalty (M ! r)" if "r \<in> set [0..<?n]" for r pen
  proof -
    have r: "r < ?n" using that by simp
    have "M ! r \<noteq> []" using rowlen[OF r] ne by auto
    moreover have "\<forall>i<length (M ! r). ?E ! r ! i = IntC (M ! r ! i)" using r by simp
    ultimately show ?thesis
      using scan_line_whole[of "M ! r" "\<lambda>c. ?E ! r ! c" pen] rowlen[OF r] by simp
  qed
  have colstep: "scan_line (map (\<lambda>r. ?E ! r ! c) [1..<?n]) 1 (?E ! 0 ! c) pen
      = pen + spec_line_penalty (spec_columns M ! c)" if "c \<in> set [0..<?n]" for c pen
  proof -
    have c: "c < ?n" using that by simp
    let ?col = "map (\<lambda>row. row ! c) M"
    have "?col \<noteq> []" using ne by simp
    moreover have "\<forall>i<length ?col. ?E ! i ! c = IntC (?col ! i)" using c rowlen by simp
    ultimately show ?thesis
      using scan_line_whole[of ?col "\<lambda>r. ?E ! r ! c" pen] by (simp add: nth_columns[OF c])
  qed
  have rows: "foldl (\<lambda>penalty r_idx.
        scan_line (map (\<lambda>c_idx. ?E ! r_idx ! c_idx) [1..<length ?E]) 1 (?E ! r_idx ! 0) penalty)
      0 [0..<length ?E] = sum_list (map spec_line_penalty M)"
    using foldl_add_cong[of "[0..<?n]" _ "\<lambda>r. spec_line_penalty (M ! r)" 0, OF rowstep]
    by (simp add: map_nth_f)
  have cols: "foldl (\<lambda>penalty c_idx.
        scan_line (map (\<lambda>r_idx. ?E ! r_idx ! c_idx) [1..<length ?E]) 1 (?E ! 0 ! c_idx) penalty)
      a [0..<length ?E] = a + sum_list (map spec_line_penalty (spec_columns M))" for a
    using foldl_add_cong[of "[0..<?n]" _ "\<lambda>c. spec_line_penalty (spec_columns M ! c)" a, OF colstep]
      map_nth_f[of spec_line_penalty "spec_columns M"]
    by simp
  show ?thesis
    by (simp only: calculate_penalty_rule1_def Let_def nolt if_False rows cols spec_N1_def
        map_append sum_list_append add_0)
qed

lemma calculate_penalty_rule2_N2:
  assumes sq: "\<forall>row\<in>set M. length row = length M"
  shows "calculate_penalty_rule2 (map (map IntC) M) = spec_N2 M"
proof -
  let ?E = "map (map IntC) M" and ?n = "length M"
  have rowlen: "length (M ! r) = ?n" if "r < ?n" for r using sq that by simp
  have inner: "(if ?E ! r ! c = ?E ! (r + 1) ! c \<and> ?E ! r ! c = ?E ! r ! (c + 1)
                  \<and> ?E ! r ! c = ?E ! (r + 1) ! (c + 1) then p + 3 else p)
      = p + (if spec_block_identical M r c then 3 else 0)"
    if "r \<in> set [0..<?n - 1]" "c \<in> set [0..<?n - 1]" for r c and p :: int
  proof -
    have "r < ?n" "r + 1 < ?n" "c + 1 < ?n" "c < ?n" using that by auto
    then show ?thesis using rowlen by (simp add: spec_block_identical_def)
  qed
  have row: "foldl (\<lambda>penalty c_idx.
          if ?E ! r ! c_idx = ?E ! (r + 1) ! c_idx \<and> ?E ! r ! c_idx = ?E ! r ! (c_idx + 1)
             \<and> ?E ! r ! c_idx = ?E ! (r + 1) ! (c_idx + 1)
          then penalty + 3 else penalty) p [0..<?n - 1]
      = p + (\<Sum>c\<leftarrow>[0..<?n - 1]. if spec_block_identical M r c then 3 else 0)"
    if "r \<in> set [0..<?n - 1]" for r and p :: int
    by (rule foldl_add_cong) (rule inner[OF that])
  show ?thesis
    unfolding calculate_penalty_rule2_def spec_N2_def Let_def length_map
    by (rule trans[OF foldl_add_cong[OF row]]) simp_all
qed


lemma spec_finder_like_IntC:
  "(map IntC w = patterns_to_check_horizontal ! 0 \<or> map IntC w = patterns_to_check_horizontal ! 1)
     = spec_finder_like w"
proof -
  have inj: "inj IntC" by (simp add: inj_def)
  have e: "(map IntC w = map IntC v) = (w = v)" for v
    using inj by (simp only: inj_map_eq_map)
  have p0: "patterns_to_check_horizontal ! 0 = map IntC [0, 0, 0, 0, 1, 0, 1, 1, 1, 0, 1]"
    by (simp only: patterns_to_check_horizontal_def nth_Cons_0)
  have p1: "patterns_to_check_horizontal ! 1 = map IntC [1, 0, 1, 1, 1, 0, 1, 0, 0, 0, 0]"
    by (simp only: patterns_to_check_horizontal_def One_nat_def nth_Cons_Suc nth_Cons_0)
  show ?thesis unfolding p0 p1 e spec_finder_like_def by blast
qed

lemma calculate_penalty_rule3_N3:
  assumes sq: "\<forall>row\<in>set M. length row = length M"
  shows "calculate_penalty_rule3 (map (map IntC) M) = spec_N3 M"
proof -
  let ?E = "map (map IntC) M" and ?n = "length M"
  let ?score = "\<lambda>line. \<Sum>w\<leftarrow>spec_windows 11 line. if spec_finder_like w then 40 else (0 :: int)"
  let ?hit = "\<lambda>sl. sl = patterns_to_check_horizontal ! 0 \<or> sl = patterns_to_check_horizontal ! 1"
  have rowlen: "length (M ! r) = ?n" if "r < ?n" for r using sq that by simp
  have rowcell: "(if ?hit (take 11 (drop c (?E ! r))) then p + 40 else p)
       = p + (if spec_finder_like (take 11 (drop c (M ! r))) then 40 else 0)"
    if "r \<in> set [0..<length ?E]" for r c and p :: int
  proof -
    have "take 11 (drop c (?E ! r)) = map IntC (take 11 (drop c (M ! r)))"
      using that by (simp add: take_map drop_map)
    then show ?thesis unfolding spec_finder_like_IntC[symmetric] by (simp only: if_distrib[of "(+) p"] add_0_right)
  qed
  have row: "foldl (\<lambda>penalty c_idx.
          if ?hit (take 11 (drop c_idx (?E ! r))) then penalty + 40 else penalty)
        p [0..<length ?E + 1 - 11]
      = p + ?score (M ! r)"
    if "r \<in> set [0..<length ?E]" for r and p :: int
  proof -
    have r: "r < ?n" using that by simp
    have "foldl (\<lambda>penalty c_idx.
          if ?hit (take 11 (drop c_idx (?E ! r))) then penalty + 40 else penalty)
        p [0..<length ?E + 1 - 11]
      = p + (\<Sum>c\<leftarrow>[0..<length ?E + 1 - 11].
               if spec_finder_like (take 11 (drop c (M ! r))) then 40 else 0)"
      by (rule foldl_add_cong) (rule rowcell[OF that])
    also have "(\<Sum>c\<leftarrow>[0..<length ?E + 1 - 11].
               if spec_finder_like (take 11 (drop c (M ! r))) then 40 else (0 :: int)) = ?score (M ! r)"
      unfolding spec_windows_def map_map comp_def length_map rowlen[OF r] ..
    finally show ?thesis .
  qed
  have colcell: "(if ?hit (map (\<lambda>k. ?E ! k ! c) [r..<r + 11]) then p + 40 else p)
       = p + (if spec_finder_like (take 11 (drop r (spec_columns M ! c))) then 40 else 0)"
    if "c \<in> set [0..<length ?E]" "r \<in> set [0..<length ?E + 1 - 11]" for r c and p :: int
  proof -
    have c: "c < ?n" and r: "r + 11 \<le> ?n" using that by auto
    have "map (\<lambda>k. ?E ! k ! c) [r..<r + 11] = map (\<lambda>k. IntC (M ! k ! c)) [r..<r + 11]"
      using c r rowlen by simp
    also have "\<dots> = map (\<lambda>row. IntC (row ! c)) (take 11 (drop r M))"
      using take_drop_nth[of r 11 M "\<lambda>row. IntC (row ! c)"] r by simp
    also have "\<dots> = map IntC (take 11 (drop r (spec_columns M ! c)))"
      by (simp add: nth_columns[OF c] take_map drop_map)
    finally show ?thesis unfolding spec_finder_like_IntC[symmetric] by (simp only: if_distrib[of "(+) p"] add_0_right)
  qed
  have col: "foldl (\<lambda>penalty r_idx.
          if ?hit (map (\<lambda>k. ?E ! k ! c) [r_idx..<r_idx + 11]) then penalty + 40 else penalty)
        p [0..<length ?E + 1 - 11]
      = p + ?score (spec_columns M ! c)"
    if "c \<in> set [0..<length ?E]" for c and p :: int
  proof -
    have c: "c < ?n" using that by simp
    have lc: "length (spec_columns M ! c) = ?n" by (simp add: nth_columns[OF c])
    have "foldl (\<lambda>penalty r_idx.
          if ?hit (map (\<lambda>k. ?E ! k ! c) [r_idx..<r_idx + 11]) then penalty + 40 else penalty)
        p [0..<length ?E + 1 - 11]
      = p + (\<Sum>r\<leftarrow>[0..<length ?E + 1 - 11].
               if spec_finder_like (take 11 (drop r (spec_columns M ! c))) then 40 else 0)"
      by (rule foldl_add_cong) (rule colcell[OF that])
    also have "(\<Sum>r\<leftarrow>[0..<length ?E + 1 - 11].
               if spec_finder_like (take 11 (drop r (spec_columns M ! c))) then 40 else (0 :: int))
         = ?score (spec_columns M ! c)"
      unfolding spec_windows_def map_map comp_def length_map lc ..
    finally show ?thesis .
  qed
  have rows_sum: "foldl (\<lambda>penalty r_idx.
        foldl (\<lambda>penalty c_idx.
          if ?hit (take 11 (drop c_idx (?E ! r_idx))) then penalty + 40 else penalty)
          penalty [0..<length ?E + 1 - 11])
       0 [0..<length ?E] = sum_list (map ?score M)"
  proof -
    have "foldl (\<lambda>penalty r_idx.
        foldl (\<lambda>penalty c_idx.
          if ?hit (take 11 (drop c_idx (?E ! r_idx))) then penalty + 40 else penalty)
          penalty [0..<length ?E + 1 - 11])
       0 [0..<length ?E] = 0 + sum_list (map (\<lambda>r. ?score (M ! r)) [0..<length ?E])"
      by (rule foldl_add_cong) (rule row)
    then show ?thesis unfolding length_map map_nth_f[of ?score M] by simp
  qed
  have cols_sum: "foldl (\<lambda>penalty c_idx.
        foldl (\<lambda>penalty r_idx.
          if ?hit (map (\<lambda>k. ?E ! k ! c_idx) [r_idx..<r_idx + 11]) then penalty + 40 else penalty)
          penalty [0..<length ?E + 1 - 11])
       a [0..<length ?E] = a + sum_list (map ?score (spec_columns M))" for a
  proof -
    have "foldl (\<lambda>penalty c_idx.
        foldl (\<lambda>penalty r_idx.
          if ?hit (map (\<lambda>k. ?E ! k ! c_idx) [r_idx..<r_idx + 11]) then penalty + 40 else penalty)
          penalty [0..<length ?E + 1 - 11])
       a [0..<length ?E] = a + sum_list (map (\<lambda>c. ?score (spec_columns M ! c)) [0..<length ?E])"
      by (rule foldl_add_cong) (rule col)
    then show ?thesis using map_nth_f[of ?score "spec_columns M"] by (simp only: length_map length_columns)
  qed
  show ?thesis
    unfolding calculate_penalty_rule3_def Let_def rows_sum cols_sum spec_N3_def
    by simp
qed

lemma calculate_penalty_rule4_N4:
  assumes "M \<noteq> []"
  shows "calculate_penalty_rule4 (map (map IntC) M) = spec_N4 M"
proof -
  have inj: "inj IntC" by (simp add: inj_def)
  have c: "count_list (map IntC row) (IntC 1) = length (filter (\<lambda>v. v = 1) row)" for row
    by (induction row) auto
  have "sum_list (map (\<lambda>row. count_list row (IntC 1)) (map (map IntC) M)) =
        length (filter (\<lambda>v. v = 1) (concat M))"
    by (induction M) (simp_all add: c)
  then show ?thesis
    using assms by (simp add: calculate_penalty_rule4_def spec_N4_def Let_def mult.commute)
qed

lemma calculate_total_penalty_score_four_rules:
  assumes ne: "M \<noteq> []" and sq: "\<forall>row\<in>set M. length row = length M"
  shows "calculate_total_penalty_score (map (map IntC) M) =
     Inr (spec_penalty_total M, [spec_N1 M, spec_N2 M, spec_N3 M, spec_N4 M])"
proof -
  have "hd M \<noteq> []" using ne sq by (cases M) auto
  then have "\<not> (map (map IntC) M = [] \<or> (length (map (map IntC) M) > 0 \<and> hd (map (map IntC) M) = []))"
    using ne by (simp add: hd_map)
  then show ?thesis
    unfolding calculate_total_penalty_score_def
    by (simp only: if_False calculate_penalty_rule1_N1[OF ne sq] calculate_penalty_rule2_N2[OF sq]
        calculate_penalty_rule3_N3[OF sq] calculate_penalty_rule4_N4[OF ne] ebind_simps Let_def
        spec_penalty_total_def) simp
qed

lemma eval_matrix_base_light_reserved:
  "eval_matrix_base m = map (map IntC) (light_reserved m)"
  unfolding eval_matrix_base_def light_reserved_def map_map
  by (intro map_cong refl) (auto split: cell.splits)

lemma length_light_reserved [simp]: "length (light_reserved m) = length m"
  by (simp add: light_reserved_def)

lemma rows_light_reserved:
  "\<forall>row\<in>set m. length row = n \<Longrightarrow> \<forall>row\<in>set (light_reserved m). length row = n"
  by (auto simp: light_reserved_def)

lemma calculate_total_penalty_score_spec:
  assumes "m \<noteq> []" "\<forall>row\<in>set m. length row = length m"
  shows "calculate_total_penalty_score (eval_matrix_base m) =
     Inr (spec_penalty_total (light_reserved m),
          [spec_N1 (light_reserved m), spec_N2 (light_reserved m),
           spec_N3 (light_reserved m), spec_N4 (light_reserved m)])"
proof -
  have ne: "light_reserved m \<noteq> []" using assms(1) by (simp add: light_reserved_def)
  have sq: "\<forall>row\<in>set (light_reserved m). length row = length (light_reserved m)"
    using rows_light_reserved[OF assms(2)] by simp
  show ?thesis
    unfolding eval_matrix_base_light_reserved
    by (rule calculate_total_penalty_score_four_rules[OF ne sq])
qed

text \<open>
  Claim C2.  For a square matrix with a function map of the same dimensions, in which
  every cell that is no integer (a reserved cell) lies where the function map is true,
  \<open>find_best_pattern\<close> returns the matrix masked with a mask id \<open>best\<close> in 0..7.
  The score the source computes for a mask id is the four-rule penalty total, as the
  specification states the rules N1 to N4, of the matrix masked with that id, a
  reserved cell counting as light; the total of \<open>best\<close> is less than or equal to the
  total of every other mask id, and \<open>best\<close> is the lowest id with that total.
\<close>

theorem find_best_pattern_minimal:
  assumes ne: "matrix \<noteq> []"
    and rows: "\<forall>row\<in>set matrix. length row = length matrix"
    and flen: "length function_map = length matrix"
    and frows: "\<forall>frow\<in>set function_map. length frow = length matrix"
    and reserved: "\<forall>r<length matrix. \<forall>c<length matrix.
                     (\<forall>v. matrix ! r ! c \<noteq> IntC v) \<longrightarrow> function_map ! r ! c"
  shows "\<exists>masked best.
     find_best_pattern matrix function_map = Inr (masked, best)
     \<and> 0 \<le> best \<and> best \<le> 7
     \<and> apply_specific_mask_pattern best matrix function_map = Inr masked
     \<and> masked_penalty matrix function_map best = Inr (spec_penalty_total (light_reserved masked))
     \<and> (\<forall>p. 0 \<le> p \<and> p \<le> 7 \<longrightarrow>
          (\<exists>mp. apply_specific_mask_pattern p matrix function_map = Inr mp
               \<and> masked_penalty matrix function_map p = Inr (spec_penalty_total (light_reserved mp))
               \<and> spec_penalty_total (light_reserved masked) \<le> spec_penalty_total (light_reserved mp)
               \<and> (spec_penalty_total (light_reserved mp) = spec_penalty_total (light_reserved masked)
                    \<longrightarrow> best \<le> p)))"
proof -
  let ?n = "length matrix"
  define mm where "mm p = masked_rows (the (MASK_CONDITION_FUNCTIONS p)) function_map matrix ?n ?n" for p
  define em where "em p = masked_rows (the (MASK_CONDITION_FUNCTIONS p)) function_map
                           (eval_matrix_base matrix) ?n ?n" for p
  define sc where "sc p = spec_penalty_total (light_reserved (mm p))" for p
  have app_m: "apply_specific_mask_pattern p matrix function_map = Inr (mm p)"
    if "0 \<le> p" "p \<le> 7" for p
    unfolding mm_def using that ne rows flen frows by (intro apply_mask_rect) simp_all
  have app_e: "apply_specific_mask_pattern p (eval_matrix_base matrix) function_map = Inr (em p)"
    if "0 \<le> p" "p \<le> 7" for p
  proof -
    have "apply_specific_mask_pattern p (eval_matrix_base matrix) function_map =
       Inr (masked_rows (the (MASK_CONDITION_FUNCTIONS p)) function_map (eval_matrix_base matrix)
             ?n (length (eval_matrix_base matrix)))"
      using that ne rows flen frows
      by (intro apply_mask_rect) (auto simp: eval_matrix_base_def)
    then show ?thesis by (simp add: em_def)
  qed
  have em_mm: "eval_matrix_base (mm p) = em p" for p
    unfolding mm_def em_def by (rule eval_matrix_base_masked[OF rows reserved])
  have mm_ne: "mm p \<noteq> []" for p
  proof -
    have "length (mm p) = ?n" by (simp add: mm_def masked_rows_def)
    then show ?thesis using ne by auto
  qed
  have mm_rows: "\<forall>row\<in>set (mm p). length row = length (mm p)" for p
  proof -
    have "length (mm p) = ?n" by (simp add: mm_def masked_rows_def)
    then show ?thesis
      using rows_masked_rows[OF rows, of _ function_map ?n] by (simp add: mm_def)
  qed
  have score: "\<exists>pl. calculate_total_penalty_score (em p) = Inr (sc p, pl)" for p
    using calculate_total_penalty_score_spec[OF mm_ne[of p] mm_rows[of p]]
    by (simp add: em_mm sc_def)
  have pen: "masked_penalty matrix function_map p = Inr (sc p)" if "0 \<le> p" "p \<le> 7" for p
    using app_m[OF that] score[of p] by (auto simp: masked_penalty_def em_mm)
  obtain s b where pb: "pick_best sc (sc 0, 0) [1, 2, 3, 4, 5, 6, 7] = (s, b)"
    by (cases "pick_best sc (sc 0, 0) [1, 2, 3, 4, 5, 6, 7]") auto
  have props: "s = sc b \<and> (b = 0 \<or> b \<in> set [1, 2, 3, 4, 5, 6, 7]) \<and> s \<le> sc 0
      \<and> (\<forall>p\<in>set [1, 2, 3, 4, 5, 6, 7]. s \<le> sc p)
      \<and> (\<forall>p\<in>insert 0 (set [1, 2, 3, 4, 5, 6, 7]). sc p = s \<longrightarrow> b \<le> p)"
    by (rule pick_best_min[OF _ _ _ pb]) simp_all
  have "b = 0 \<or> b \<in> set [1, 2, 3, 4, 5, 6, 7]" using props by blast
  then have b07: "0 \<le> b" "b \<le> 7" by auto
  have all07: "p \<in> insert 0 (set [1, 2, 3, 4, 5, 6, 7])" if "0 \<le> p" "p \<le> 7" for p :: int
  proof -
    from that have "p = 0 \<or> p = 1 \<or> p = 2 \<or> p = 3 \<or> p = 4 \<or> p = 5 \<or> p = 6 \<or> p = 7" by arith
    then show ?thesis by auto
  qed
  have fb: "find_best_pattern matrix function_map = Inr (mm b, b)"
    using find_best_pattern_pick[of matrix function_map em mm sc, OF app_e app_m score] pb
    by simp
  have sb: "s = sc b" using props by blast
  have others: "\<forall>p. 0 \<le> p \<and> p \<le> 7 \<longrightarrow>
          (\<exists>mp. apply_specific_mask_pattern p matrix function_map = Inr mp
               \<and> masked_penalty matrix function_map p = Inr (spec_penalty_total (light_reserved mp))
               \<and> spec_penalty_total (light_reserved (mm b)) \<le> spec_penalty_total (light_reserved mp)
               \<and> (spec_penalty_total (light_reserved mp) = spec_penalty_total (light_reserved (mm b))
                    \<longrightarrow> b \<le> p))"
  proof (intro allI impI)
    fix p :: int assume p: "0 \<le> p \<and> p \<le> 7"
    then have mem: "p \<in> insert 0 (set [1, 2, 3, 4, 5, 6, 7])" using all07 by blast
    have le: "sc b \<le> sc p" using props mem sb by auto
    have tie: "sc p = sc b \<longrightarrow> b \<le> p" using props mem sb by blast
    have a: "apply_specific_mask_pattern p matrix function_map = Inr (mm p)"
      using app_m p by blast
    have q: "masked_penalty matrix function_map p = Inr (spec_penalty_total (light_reserved (mm p)))"
      using pen[of p] p by (simp add: sc_def)
    show "\<exists>mp. apply_specific_mask_pattern p matrix function_map = Inr mp
               \<and> masked_penalty matrix function_map p = Inr (spec_penalty_total (light_reserved mp))
               \<and> spec_penalty_total (light_reserved (mm b)) \<le> spec_penalty_total (light_reserved mp)
               \<and> (spec_penalty_total (light_reserved mp) = spec_penalty_total (light_reserved (mm b))
                    \<longrightarrow> b \<le> p)"
      using a q le tie unfolding sc_def by (intro exI[of _ "mm p"] conjI)
  qed
  have penb: "masked_penalty matrix function_map b = Inr (spec_penalty_total (light_reserved (mm b)))"
    using pen[OF b07] by (simp add: sc_def)
  show ?thesis
    using fb b07 app_m[OF b07] penb others
    by (intro exI[of _ "mm b"] exI[of _ b] conjI)
qed

text \<open>
  The theorem of C2 at the 11 by 11 matrix: mask 2 is chosen, its four penalties are
  10, 18, 40 and 10, mask 0 scores 182, and mask 4 scores 78 as well.
\<close>

theorem find_best_pattern_minimal_witness:
  "find_best_pattern penalty_matrix penalty_function_map = Inr (penalty_masked_2, 2)
   \<and> spec_penalty_total (light_reserved penalty_masked_2) = 78
   \<and> [spec_N1 (light_reserved penalty_masked_2), spec_N2 (light_reserved penalty_masked_2),
       spec_N3 (light_reserved penalty_masked_2), spec_N4 (light_reserved penalty_masked_2)] =
      [10, 18, 40, 10]
   \<and> (\<exists>mp. apply_specific_mask_pattern 0 penalty_matrix penalty_function_map = Inr mp
          \<and> spec_penalty_total (light_reserved mp) = 182)
   \<and> (\<exists>mp. apply_specific_mask_pattern 4 penalty_matrix penalty_function_map = Inr mp
          \<and> spec_penalty_total (light_reserved mp) = 78)"
proof -
  have h: "penalty_matrix \<noteq> []"
    "\<forall>row\<in>set penalty_matrix. length row = length penalty_matrix"
    "length penalty_function_map = length penalty_matrix"
    "\<forall>frow\<in>set penalty_function_map. length frow = length penalty_matrix"
    by (simp_all add: penalty_matrix_def penalty_function_map_def)
  have r: "\<forall>r<length penalty_matrix. \<forall>c<length penalty_matrix.
             (\<forall>v. penalty_matrix ! r ! c \<noteq> IntC v) \<longrightarrow> penalty_function_map ! r ! c"
  proof (intro allI impI)
    fix r c assume rc: "r < length penalty_matrix" "c < length penalty_matrix"
      and nv: "\<forall>v. penalty_matrix ! r ! c \<noteq> IntC v"
    have "list_all (\<lambda>r. list_all (\<lambda>c. (case penalty_matrix ! r ! c of IntC v \<Rightarrow> True | _ \<Rightarrow> False)
             \<or> penalty_function_map ! r ! c) [0..<11]) [0..<11]"
      by code_simp
    moreover have "length penalty_matrix = 11" by (simp add: penalty_matrix_def)
    ultimately have "(case penalty_matrix ! r ! c of IntC v \<Rightarrow> True | _ \<Rightarrow> False)
             \<or> penalty_function_map ! r ! c"
      using rc by (simp add: list_all_iff)
    then show "penalty_function_map ! r ! c" using nv by (auto split: cell.splits)
  qed
  from find_best_pattern_minimal[OF h r]
  obtain masked best where res:
    "find_best_pattern penalty_matrix penalty_function_map = Inr (masked, best)"
    "masked_penalty penalty_matrix penalty_function_map best
       = Inr (spec_penalty_total (light_reserved masked))"
    "\<forall>p. 0 \<le> p \<and> p \<le> 7 \<longrightarrow>
          (\<exists>mp. apply_specific_mask_pattern p penalty_matrix penalty_function_map = Inr mp
               \<and> masked_penalty penalty_matrix penalty_function_map p
                    = Inr (spec_penalty_total (light_reserved mp))
               \<and> spec_penalty_total (light_reserved masked) \<le> spec_penalty_total (light_reserved mp)
               \<and> (spec_penalty_total (light_reserved mp) = spec_penalty_total (light_reserved masked)
                    \<longrightarrow> best \<le> p))"
    by blast
  have mb: "masked = penalty_masked_2" "best = 2"
    using res(1) penalty_matrix_choice by simp_all
  have t: "masked_penalty penalty_matrix penalty_function_map 0 = Inr 182"
    "masked_penalty penalty_matrix penalty_function_map 2 = Inr 78"
    "masked_penalty penalty_matrix penalty_function_map 4 = Inr 78"
    using penalty_matrix_totals by simp_all
  have c1: "spec_penalty_total (light_reserved penalty_masked_2) = 78"
    using res(2) t(2) unfolding mb by simp
  have "(0::int) \<le> 0 \<and> (0::int) \<le> 7" by simp
  with res(3) have c3: "\<exists>mp. apply_specific_mask_pattern 0 penalty_matrix penalty_function_map = Inr mp
          \<and> spec_penalty_total (light_reserved mp) = 182"
    using t(1) by fastforce
  have "(0::int) \<le> 4 \<and> (4::int) \<le> 7" by simp
  with res(3) have c4: "\<exists>mp. apply_specific_mask_pattern 4 penalty_matrix penalty_function_map = Inr mp
          \<and> spec_penalty_total (light_reserved mp) = 78"
    using t(3) by fastforce
  show ?thesis
    using penalty_matrix_choice c1 penalty_matrix_spec_rules c3 c4 by (intro conjI)
qed

section \<open>The zig-zag placement of the data bits\<close>

lemma py_index_nat: "i < length xs \<Longrightarrow> py_index xs (int i) = Inr i"
  by (simp add: py_index_def)

lemma get_cell_nat:
  "in_matrix m rc \<Longrightarrow> get_cell m (int (fst rc)) (int (snd rc)) = Inr (cell_at m rc)"
  by (simp add: in_matrix_def get_cell_def get_item_def py_index_nat cell_at_def)

lemma set_cell_nat:
  "in_matrix m rc \<Longrightarrow> set_cell m (int (fst rc)) (int (snd rc)) v = Inr (put_cell m rc v)"
  by (simp add: in_matrix_def set_cell_def set_item_def py_index_nat put_cell_def)

lemma same_shape_refl [simp]: "same_shape m m"
  by (simp add: same_shape_def)

lemma same_shape_put [simp]: "same_shape (put_cell m rc v) m"
  by (cases "fst rc < length m") (auto simp: same_shape_def put_cell_def map_update list_update_same_conv list_update_beyond)

lemma same_shape_trans: "same_shape a b \<Longrightarrow> same_shape b c \<Longrightarrow> same_shape a c"
  by (simp add: same_shape_def)

lemma same_shape_in_matrix: "same_shape m' m \<Longrightarrow> in_matrix m' rc = in_matrix m rc"
proof -
  assume s: "same_shape m' m"
  then have l: "length m' = length m" unfolding same_shape_def by (metis length_map)
  have "length (m' ! r) = length (m ! r)" if "r < length m" for r
    using s that l unfolding same_shape_def by (metis nth_map)
  then show ?thesis using l by (auto simp: in_matrix_def)
qed

lemma in_matrix_put [simp]: "in_matrix (put_cell m rc v) rc' = in_matrix m rc'"
  by (rule same_shape_in_matrix[OF same_shape_put])

lemma cell_at_put:
  "in_matrix m rc \<Longrightarrow> cell_at (put_cell m rc v) rc' = (if rc' = rc then v else cell_at m rc')"
  by (cases rc; cases rc') (auto simp: in_matrix_def cell_at_def put_cell_def nth_list_update)

lemma digit_of_binary:
  "ch = CHR ''0'' \<or> ch = CHR ''1'' \<Longrightarrow> digit_of_char ch = Inr (bit_value ch)"
  by (auto simp: digit_of_char_def bit_value_def)

lemma place_bit_fill:
  assumes "in_matrix m rc" "int (snd rc) < size'" "binary_string bits"
  shows "place_bit size' bits (int (fst rc)) (int (snd rc)) (m, idx) = Inr (fill_cell bits rc (m, idx))"
proof -
  have d: "digit_of_char (bits ! idx) = Inr (bit_value (bits ! idx))" if "idx < length bits"
    using assms(3) that by (intro digit_of_binary) (auto simp: binary_string_def list_all_length)
  show ?thesis
    using assms(1,2) d
    by (simp add: place_bit_def fill_cell_def get_cell_nat set_cell_nat)
qed

lemma fill_cell_shape: "same_shape (fst (fill_cell bits rc (m, idx))) m"
  by (simp add: fill_cell_def)

lemma place_path_fill:
  assumes "\<forall>rc\<in>set path. in_matrix m rc \<and> int (snd rc) < size'" "binary_string bits"
  shows "place_path size' bits path (m, idx) = Inr (fold (fill_cell bits) path (m, idx))"
  using assms(1)
proof (induction path arbitrary: m idx)
  case Nil
  show ?case by (simp add: place_path_def)
next
  case (Cons rc path)
  obtain m1 idx1 where f: "fill_cell bits rc (m, idx) = (m1, idx1)"
    by (cases "fill_cell bits rc (m, idx)") auto
  have sh: "same_shape m1 m" using fill_cell_shape[of bits rc m idx] f by simp
  have step: "place_bit size' bits (int (fst rc)) (int (snd rc)) (m, idx) = Inr (m1, idx1)"
    using place_bit_fill[of m rc size' bits idx] Cons.prems assms(2) f by simp
  have "\<forall>rc\<in>set path. in_matrix m1 rc \<and> int (snd rc) < size'"
    using Cons.prems same_shape_in_matrix[OF sh] by simp
  from Cons.IH[OF this, of idx1]
  show ?case using step f by (simp add: place_path_def)
qed

lemma place_path_append:
  "place_path size' bits (p @ q) s = ebind (place_path size' bits p s) (place_path size' bits q)"
  by (simp add: place_path_def[abs_def] fold_err_append)

lemma free_cells_put:
  assumes "in_matrix m rc" "rc \<notin> set path"
  shows "free_cells (put_cell m rc v) path = free_cells m path"
  unfolding free_cells_def
  by (rule filter_cong) (use assms in \<open>auto simp: cell_at_put\<close>)

lemma fill_path_write:
  assumes "distinct path" "\<forall>rc\<in>set path. in_matrix m rc"
    "idx + length (free_cells m path) \<le> length bits"
  shows "fold (fill_cell bits) path (m, idx) =
     (write_cells bits idx (free_cells m path) m, idx + length (free_cells m path))"
  using assms
proof (induction path arbitrary: m idx)
  case Nil
  show ?case by (simp add: free_cells_def)
next
  case (Cons rc path)
  show ?case
  proof (cases "cell_at m rc = NoneC")
    case False
    then have f: "free_cells m (rc # path) = free_cells m path" by (simp add: free_cells_def)
    have "fill_cell bits rc (m, idx) = (m, idx)" using False by (simp add: fill_cell_def)
    then show ?thesis using Cons.IH[of m idx] Cons.prems f by simp
  next
    case True
    let ?m1 = "put_cell m rc (IntC (bit_value (bits ! idx)))"
    have inm: "in_matrix m rc" using Cons.prems(2) by simp
    have notin: "rc \<notin> set path" using Cons.prems(1) by simp
    have f: "free_cells m (rc # path) = rc # free_cells m path"
      using True by (simp add: free_cells_def)
    have f1: "free_cells ?m1 path = free_cells m path"
      by (rule free_cells_put[OF inm notin])
    have lt: "idx < length bits" using Cons.prems(3) f by simp
    have step: "fill_cell bits rc (m, idx) = (?m1, idx + 1)"
      using True lt by (simp add: fill_cell_def)
    have in1: "\<forall>rc\<in>set path. in_matrix ?m1 rc"
      using Cons.prems(2) by simp
    have "fold (fill_cell bits) path (?m1, idx + 1) =
       (write_cells bits (idx + 1) (free_cells ?m1 path) ?m1, idx + 1 + length (free_cells ?m1 path))"
      by (rule Cons.IH) (use Cons.prems in1 f f1 in simp_all)
    then show ?thesis using step f f1 by simp
  qed
qed

lemma write_cells_shape: "same_shape (write_cells bits idx cells m) m"
proof (induction cells arbitrary: m idx)
  case Nil
  show ?case by simp
next
  case (Cons rc cells)
  show ?case using Cons[of "idx + 1" "put_cell m rc (IntC (bit_value (bits ! idx)))"]
    by (auto intro: same_shape_trans[OF _ same_shape_put])
qed

lemma write_cells_other:
  assumes "\<forall>rc\<in>set cells. in_matrix m rc" "rc \<notin> set cells"
  shows "cell_at (write_cells bits idx cells m) rc = cell_at m rc"
  using assms
proof (induction cells arbitrary: m idx)
  case Nil
  show ?case by simp
next
  case (Cons a cells)
  let ?m1 = "put_cell m a (IntC (bit_value (bits ! idx)))"
  have "\<forall>rc\<in>set cells. in_matrix ?m1 rc"
    using Cons.prems(1) by simp
  from Cons.IH[OF this, of "idx + 1"] Cons.prems
  show ?case by (simp add: cell_at_put)
qed

lemma write_cells_nth:
  assumes "distinct cells" "\<forall>rc\<in>set cells. in_matrix m rc" "k < length cells"
  shows "cell_at (write_cells bits idx cells m) (cells ! k) = IntC (bit_value (bits ! (idx + k)))"
  using assms
proof (induction cells arbitrary: m idx k)
  case Nil
  then show ?case by simp
next
  case (Cons a cells)
  let ?m1 = "put_cell m a (IntC (bit_value (bits ! idx)))"
  have in1: "\<forall>rc\<in>set cells. in_matrix ?m1 rc"
    using Cons.prems(2) by simp
  show ?case
  proof (cases k)
    case 0
    have "cell_at (write_cells bits (idx + 1) cells ?m1) a = cell_at ?m1 a"
      by (rule write_cells_other[OF in1]) (use Cons.prems(1) in simp)
    then show ?thesis using 0 Cons.prems(2) by (simp add: cell_at_put)
  next
    case (Suc j)
    have "cell_at (write_cells bits (idx + 1) cells ?m1) (cells ! j) =
        IntC (bit_value (bits ! (idx + 1 + j)))"
      by (rule Cons.IH[OF _ in1]) (use Cons.prems Suc in simp_all)
    then show ?thesis using Suc by simp
  qed
qed

lemma upto_0_1: "[0..1] = [0, 1 :: int]"
  by (simp add: upto_rec1)

lemma fold_err_Nil_fun [simp]: "fold_err f [] = Inr"
  by (rule ext) simp

lemma ebind_assoc: "ebind (ebind x f) g = ebind x (\<lambda>y. ebind (f y) g)"
  by (cases x) simp_all

lemma ebind_cong: "(\<And>y. f y = g y) \<Longrightarrow> ebind x f = ebind x g"
  by (cases x) simp_all

lemma pair_step:
  assumes "1 \<le> c" "row = int r"
  shows "fold_err (\<lambda>c_offset. place_bit size' bits row (int c - c_offset)) [0..1] s =
         place_path size' bits [(r, c), (r, c - 1)] s"
proof -
  have c1: "int c - 1 = int (c - 1)" using assms(1) by simp
  show ?thesis
    unfolding upto_0_1 place_path_def assms(2)
    by (cases "place_bit size' bits (int r) (int c) s") (simp_all add: c1)
qed

lemma pair_cells_Cons: "pair_cells (r # rows) c = [(r, c), (r, c - 1)] @ pair_cells rows c"
  by (simp add: pair_cells_def)

lemma sweep_rows_step:
  assumes "1 \<le> c"
  shows "sweep_rows (Suc n) size' bits (int c) (m, idx, int r, d) =
     ebind (place_path size' bits [(r, c), (r, c - 1)] (m, idx))
       (\<lambda>(m', idx').
          if \<not> (0 \<le> int r + d \<and> int r + d < size')
          then Inr (m', idx', int r + d + d * (- 1), d * (- 1), True)
          else sweep_rows n size' bits (int c) (m', idx', int r + d, d))"
  unfolding sweep_rows.simps pair_step[OF assms refl]
  by (rule ebind_cong) (auto simp: Let_def)

declare sweep_rows.simps [simp del]

lemma sweep_up:
  assumes "1 \<le> c" "int r < size'"
  shows "sweep_rows (Suc (r + k)) size' bits (int c) (m, idx, int r, - 1) =
     ebind (place_path size' bits (pair_cells (rev [0..<Suc r]) c) (m, idx))
       (\<lambda>(m', idx'). Inr (m', idx', 0, 1, True))"
  using assms(2)
proof (induction r arbitrary: m idx k)
  case 0
  have "sweep_rows (Suc (0 + k)) size' bits (int c) (m, idx, int 0, - 1) =
     ebind (place_path size' bits [(0, c), (0, c - 1)] (m, idx))
       (\<lambda>(m', idx'). Inr (m', idx', 0, 1, True))"
    unfolding sweep_rows_step[OF assms(1)] by (rule ebind_cong) auto
  then show ?case by (simp add: pair_cells_def)
next
  case (Suc r)
  have r: "int r < size'" using Suc.prems by simp
  have rows: "rev [0..<Suc (Suc r)] = Suc r # rev [0..<Suc r]" by simp
  have IH: "sweep_rows (Suc (r + k)) size' bits (int c) (m', idx', int r, - 1) =
     ebind (place_path size' bits (pair_cells (rev [0..<Suc r]) c) (m', idx'))
       (\<lambda>(m', idx'). Inr (m', idx', 0, 1, True))" for m' idx'
    by (rule Suc.IH[OF r])
  have "sweep_rows (Suc (Suc r + k)) size' bits (int c) (m, idx, int (Suc r), - 1) =
     ebind (place_path size' bits [(Suc r, c), (Suc r, c - 1)] (m, idx))
       (\<lambda>s. ebind (place_path size' bits (pair_cells (rev [0..<Suc r]) c) s)
          (\<lambda>(m', idx'). Inr (m', idx', 0, 1, True)))"
    unfolding sweep_rows_step[OF assms(1)]
  proof (rule ebind_cong)
    fix y :: "qr_matrix \<times> nat"
    obtain m' idx' where y: "y = (m', idx')" by (cases y) auto
    have "int (Suc r) + - 1 = int r" by simp
    then show "(case y of (m', idx') \<Rightarrow>
          if \<not> (0 \<le> int (Suc r) + - 1 \<and> int (Suc r) + - 1 < size')
          then Inr (m', idx', int (Suc r) + - 1 + - 1 * - 1, - 1 * - 1, True)
          else sweep_rows (Suc r + k) size' bits (int c) (m', idx', int (Suc r) + - 1, - 1)) =
       ebind (place_path size' bits (pair_cells (rev [0..<Suc r]) c) y)
          (\<lambda>(m', idx'). Inr (m', idx', 0, 1, True))"
      unfolding y using r IH[of m' idx'] by (simp del: sweep_rows.simps)
  qed
  then show ?case
    unfolding rows pair_cells_Cons place_path_append ebind_assoc .
qed

lemma sweep_down:
  assumes "1 \<le> c" "size' = int n" "r + Suc j = n"
  shows "sweep_rows (Suc (j + k)) size' bits (int c) (m, idx, int r, 1) =
     ebind (place_path size' bits (pair_cells [r..<n] c) (m, idx))
       (\<lambda>(m', idx'). Inr (m', idx', size' - 1, - 1, True))"
  using assms(3)
proof (induction j arbitrary: r m idx)
  case 0
  have rows: "[r..<n] = [r]" using 0 by (simp add: upt_conv_Cons)
  have "sweep_rows (Suc (0 + k)) size' bits (int c) (m, idx, int r, 1) =
     ebind (place_path size' bits [(r, c), (r, c - 1)] (m, idx))
       (\<lambda>(m', idx'). Inr (m', idx', size' - 1, - 1, True))"
    unfolding sweep_rows_step[OF assms(1)] by (rule ebind_cong) (use 0 assms(2) in auto)
  then show ?case by (simp add: rows pair_cells_def)
next
  case (Suc j)
  have rows: "[r..<n] = r # [Suc r..<n]" using Suc.prems by (simp add: upt_conv_Cons)
  have IH: "sweep_rows (Suc (j + k)) size' bits (int c) (m', idx', int (Suc r), 1) =
     ebind (place_path size' bits (pair_cells [Suc r..<n] c) (m', idx'))
       (\<lambda>(m', idx'). Inr (m', idx', size' - 1, - 1, True))" for m' idx'
    by (rule Suc.IH) (use Suc.prems in simp)
  have "sweep_rows (Suc (Suc j + k)) size' bits (int c) (m, idx, int r, 1) =
     ebind (place_path size' bits [(r, c), (r, c - 1)] (m, idx))
       (\<lambda>s. ebind (place_path size' bits (pair_cells [Suc r..<n] c) s)
          (\<lambda>(m', idx'). Inr (m', idx', size' - 1, - 1, True)))"
    unfolding sweep_rows_step[OF assms(1)]
  proof (rule ebind_cong)
    fix y :: "qr_matrix \<times> nat"
    obtain m' idx' where y: "y = (m', idx')" by (cases y) auto
    have e: "int r + 1 = int (Suc r)" by simp
    have lt: "int (Suc r) < size'" using Suc.prems assms(2) by simp
    show "(case y of (m', idx') \<Rightarrow>
          if \<not> (0 \<le> int r + 1 \<and> int r + 1 < size')
          then Inr (m', idx', int r + 1 + 1 * - 1, 1 * - 1, True)
          else sweep_rows (Suc j + k) size' bits (int c) (m', idx', int r + 1, 1)) =
       ebind (place_path size' bits (pair_cells [Suc r..<n] c) y)
          (\<lambda>(m', idx'). Inr (m', idx', size' - 1, - 1, True))"
      unfolding y e using lt IH[of m' idx'] by (simp del: sweep_rows.simps)
  qed
  then show ?case
    unfolding rows pair_cells_Cons place_path_append ebind_assoc .
qed

lemma place_columns_path:
  assumes "column_chain col cs" "1 \<le> n" "size' = int n"
  shows "place_columns size' bits
           (m, idx, (if up then size' - 1 else 0), col, (if up then - 1 else 1)) =
         Some (place_path size' bits (zigzag_path n up cs) (m, idx))"
  using assms(1)
proof (induction cs arbitrary: col up m idx)
  case Nil
  then show ?case by (subst place_columns.simps) (simp add: place_path_def)
next
  case (Cons c cs)
  define col' where "col' = (if col = 6 then 5 else col)"
  have c: "int c = col'" "1 \<le> c" and ch: "column_chain (int c - 2) cs"
    using Cons.prems by (auto simp: col'_def)
  have col'0: "0 \<le> col'" "col' \<noteq> 6" using c by (auto simp: col'_def)
  let ?rows = "if up then rev [0..<n] else [0..<n]"
  let ?top = "if up then size' - 1 else 0"
  let ?dir = "if up then - 1 else 1 :: int"
  obtain n' where n': "n = Suc n'" using assms(2) by (cases n) auto
  have sweep: "sweep_rows (nat size') size' bits col' (m, idx, ?top, ?dir) =
     ebind (place_path size' bits (pair_cells ?rows c) (m, idx))
       (\<lambda>(m', idx'). Inr (m', idx', (if up then 0 else size' - 1), (if up then 1 else - 1), True))"
  proof (cases up)
    case True
    have e: "nat size' = Suc (n' + 0)" "size' - 1 = int n'" "col' = int c"
      by (simp_all add: assms(3) n' c(1))
    have "sweep_rows (Suc (n' + 0)) size' bits (int c) (m, idx, int n', - 1) =
       ebind (place_path size' bits (pair_cells (rev [0..<Suc n']) c) (m, idx))
         (\<lambda>(m', idx'). Inr (m', idx', 0, 1, True))"
      by (rule sweep_up[OF c(2)]) (simp add: assms(3) n')
    then show ?thesis using True unfolding e n' by simp
  next
    case False
    have e: "nat size' = Suc (n' + 0)" "col' = int c" "(0::int) = int 0"
      by (simp_all add: assms(3) n' c(1))
    have "sweep_rows (Suc (n' + 0)) size' bits (int c) (m, idx, int 0, 1) =
       ebind (place_path size' bits (pair_cells [0..<n] c) (m, idx))
         (\<lambda>(m', idx'). Inr (m', idx', size' - 1, - 1, True))"
      by (rule sweep_down[OF c(2) assms(3)]) (simp add: n')
    then show ?thesis using False unfolding e(1,2) by simp
  qed
  have skip: "place_columns size' bits (m, idx, ?top, col, ?dir) =
              place_columns size' bits (m, idx, ?top, col', ?dir)"
    by (cases "col = 6") (simp_all add: col'_def place_columns.simps[of size' bits "(m, idx, ?top, 6, ?dir)"])
  have IH: "place_columns size' bits
           (m', idx', (if up then 0 else size' - 1), col' - 2, (if up then 1 else - 1)) =
         Some (place_path size' bits (zigzag_path n (\<not> up) cs) (m', idx'))" for m' idx'
    using Cons.IH[OF ch, of m' idx' "\<not> up"] c(1) by (cases up) simp_all
  have neg: "col' - 2 < 0 \<Longrightarrow> cs = []"
    using ch c(1) by (cases cs) auto
  show ?case
  proof (cases "place_path size' bits (pair_cells ?rows c) (m, idx)")
    case (Inl e)
    then show ?thesis
      unfolding skip
      by (subst place_columns.simps) (use col'0 in \<open>simp add: sweep place_path_append\<close>)
  next
    case (Inr s)
    obtain m' idx' where s: "s = (m', idx')" by (cases s) auto
    show ?thesis
    proof (cases "col' - 2 < 0")
      case True
      then show ?thesis
        unfolding skip
        by (subst place_columns.simps)
          (use col'0 Inr s neg in \<open>simp add: sweep place_path_append place_path_def\<close>)
    next
      case False
      then show ?thesis
        unfolding skip
        by (subst place_columns.simps)
          (use col'0 Inr s IH in \<open>simp add: sweep place_path_append\<close>)
    qed
  qed
qed

lemma set_pair_cells: "set (pair_cells rows c) = set rows \<times> {c, c - 1}"
  by (auto simp: pair_cells_def)

lemma distinct_pair_cells: "distinct rows \<Longrightarrow> 1 \<le> c \<Longrightarrow> distinct (pair_cells rows c)"
  by (induction rows) (auto simp: pair_cells_def)

lemma set_zigzag_path:
  "set (zigzag_path n up cs) = {0..<n} \<times> (\<Union>c\<in>set cs. {c, c - 1})"
  by (induction cs arbitrary: up) (auto simp: set_pair_cells)

lemma distinct_zigzag_path:
  "sorted_wrt (\<lambda>a b. b + 1 < a) cs \<Longrightarrow> \<forall>c\<in>set cs. 1 \<le> c \<Longrightarrow> distinct (zigzag_path n up cs)"
proof (induction cs arbitrary: up)
  case Nil
  show ?case by simp
next
  case (Cons c cs)
  have d1: "distinct (pair_cells (if up then rev [0..<n] else [0..<n]) c)"
    using Cons.prems(2) by (intro distinct_pair_cells) auto
  have d2: "distinct (zigzag_path n (\<not> up) cs)"
    using Cons.prems by (intro Cons.IH) auto
  have "set (pair_cells (if up then rev [0..<n] else [0..<n]) c) \<inter> set (zigzag_path n (\<not> up) cs) = {}"
    using Cons.prems by (fastforce simp: set_pair_cells set_zigzag_path)
  then show ?case using d1 d2 by simp
qed


lemma fold_err_id: "(\<And>x. x \<in> set xs \<Longrightarrow> f x s = Inr s) \<Longrightarrow> fold_err f xs s = Inr s"
  by (induction xs) simp_all

lemma fill_remaining_full:
  assumes shape: "length m = n" "\<forall>row\<in>set m. length row = n"
    and full: "\<forall>r<n. \<forall>c<n. m ! r ! c \<noteq> NoneC"
  shows "fill_remaining m (int n) = Inr m"
  unfolding fill_remaining_def
proof (rule fold_err_id, rule fold_err_id)
  fix r c :: int
  assume "r \<in> set [0..int n - 1]" "c \<in> set [0..int n - 1]"
  then have r: "nat r < n" "int (nat r) = r" and c: "nat c < n" "int (nat c) = c" by auto
  have inm: "in_matrix m (nat r, nat c)" using shape r c by (simp add: in_matrix_def)
  have "get_cell m r c = Inr (m ! nat r ! nat c)"
    using get_cell_nat[OF inm] r c by (simp add: cell_at_def)
  then show "ebind (get_cell m r c) (\<lambda>v. if v = NoneC then set_cell m r c (IntC 0) else Inr m) = Inr m"
    using full r c by simp
qed

lemma same_shape_square:
  assumes "same_shape m' m" "length m = n" "\<forall>row\<in>set m. length row = n"
  shows "length m' = n" "\<forall>row\<in>set m'. length row = n"
proof -
  have "map length m' = map length m" using assms(1) by (simp add: same_shape_def)
  moreover have "map length m = replicate n n"
    using assms(2,3) by (auto intro!: nth_equalityI)
  ultimately have e: "map length m' = replicate n n" by simp
  show "length m' = n" using e by (metis length_map length_replicate)
  show "\<forall>row\<in>set m'. length row = n"
  proof
    fix row assume "row \<in> set m'"
    then have "length row \<in> set (map length m')" by simp
    then show "length row = n" unfolding e by simp
  qed
qed

lemma place_data_bits_zigzag:
  assumes n: "1 \<le> n" "size' = int n"
    and chain: "column_chain (size' - 1) cs"
    and gaps: "sorted_wrt (\<lambda>a b. b + 1 < a) cs" "\<forall>c\<in>set cs. 1 \<le> c \<and> c < n"
    and shape: "length layout = n" "\<forall>row\<in>set layout. length row = n"
    and free: "length (free_cells layout (zigzag_path n True cs)) = length bits"
    and bin: "binary_string bits"
    and covered: "\<forall>r<n. \<forall>c<n. layout ! r ! c = NoneC \<longrightarrow> (r, c) \<in> set (zigzag_path n True cs)"
  shows "place_data_bits_idx layout size' bits =
           Some (Inr (write_cells bits 0 (free_cells layout (zigzag_path n True cs)) layout, length bits))"
    and "place_data_bits layout size' bits =
           Some (Inr (write_cells bits 0 (free_cells layout (zigzag_path n True cs)) layout))"
proof -
  let ?path = "zigzag_path n True cs"
  let ?free = "free_cells layout ?path"
  let ?m = "write_cells bits 0 ?free layout"
  have inm: "in_matrix layout rc \<and> int (snd rc) < size'" if "rc \<in> set ?path" for rc
  proof -
    obtain r c where rc: "rc = (r, c)" by (cases rc) auto
    have "r < n" "c < n" using that gaps(2) unfolding rc set_zigzag_path by auto
    then show ?thesis using shape n(2) by (simp add: in_matrix_def rc)
  qed
  have dist: "distinct ?path" using gaps by (intro distinct_zigzag_path) auto
  have cols: "place_columns size' bits (layout, 0, size' - 1, size' - 1, - 1) =
      Some (place_path size' bits ?path (layout, 0))"
    using place_columns_path[OF chain n, of bits layout 0 True] by simp
  have "place_path size' bits ?path (layout, 0) = Inr (fold (fill_cell bits) ?path (layout, 0))"
    by (rule place_path_fill) (use inm bin in auto)
  also have "fold (fill_cell bits) ?path (layout, 0) = (?m, 0 + length ?free)"
    by (rule fill_path_write[OF dist]) (use inm free in auto)
  finally have pp: "place_path size' bits ?path (layout, 0) = Inr (?m, length bits)"
    using free by simp
  show idx: "place_data_bits_idx layout size' bits = Some (Inr (?m, length bits))"
    by (simp add: place_data_bits_idx_def cols pp)
  have fin: "\<forall>rc\<in>set ?free. in_matrix layout rc" using inm by (auto simp: free_cells_def)
  have dfree: "distinct ?free" using dist by (simp add: free_cells_def)
  have full: "\<forall>r<n. \<forall>c<n. ?m ! r ! c \<noteq> NoneC"
  proof (intro allI impI)
    fix r c assume rc: "r < n" "c < n"
    show "?m ! r ! c \<noteq> NoneC"
    proof (cases "(r, c) \<in> set ?free")
      case True
      then obtain k where k: "k < length ?free" "?free ! k = (r, c)"
        by (auto simp: in_set_conv_nth)
      have "cell_at ?m (?free ! k) = IntC (bit_value (bits ! (0 + k)))"
        by (rule write_cells_nth[OF dfree fin k(1)])
      then show ?thesis using k(2) by (simp add: cell_at_def)
    next
      case False
      have "cell_at ?m (r, c) = cell_at layout (r, c)"
        by (rule write_cells_other[OF fin False])
      moreover have "layout ! r ! c \<noteq> NoneC"
        using False covered rc by (auto simp: free_cells_def cell_at_def)
      ultimately show ?thesis by (simp add: cell_at_def)
    qed
  qed
  have sq: "length ?m = n" "\<forall>row\<in>set ?m. length row = n"
    using same_shape_square[OF write_cells_shape shape] by blast+
  have "fill_remaining ?m size' = Inr ?m"
    unfolding n(2) by (rule fill_remaining_full[OF sq full])
  then show "place_data_bits layout size' bits = Some (Inr ?m)"
    by (simp add: place_data_bits_def idx)
qed

section \<open>The function patterns of versions 1 and 2, evaluated\<close>

lemma layout_function_patterns_1: "layout_function_patterns 1 = Inr layout_v1"
  by code_simp
lemma layout_function_patterns_2: "layout_function_patterns 2 = Inr layout_v2"
  by code_simp
lemma create_function_pattern_matrix_1: "create_function_pattern_matrix 1 = Inr function_map_v1"
  by code_simp
lemma create_function_pattern_matrix_2: "create_function_pattern_matrix 2 = Inr function_map_v2"
  by code_simp

text \<open>Facts about the written-out matrices, by evaluation.\<close>

lemma count_v1: "length (filter (\<lambda>b. \<not> b) (concat function_map_v1)) = 208"
  by code_simp

lemma count_v2: "length (filter (\<lambda>b. \<not> b) (concat function_map_v2)) = 359"
  by code_simp

lemma unset_v1: "map (map (\<lambda>v. v = NoneC)) layout_v1 = map (map Not) function_map_v1"
  by code_simp

lemma unset_v2: "map (map (\<lambda>v. v = NoneC)) layout_v2 = map (map Not) function_map_v2"
  by code_simp

lemma shape_v1: "map length layout_v1 = replicate 21 21"
  by code_simp

lemma shape_v2: "map length layout_v2 = replicate 25 25"
  by code_simp

lemma free_v1: "length (free_cells layout_v1 (zigzag_path 21 True zigzag_columns_v1)) = 208"
  by code_simp

lemma free_v2: "length (free_cells layout_v2 (zigzag_path 25 True zigzag_columns_v2)) = 359"
  by code_simp

lemma col6_v1: "list_all (\<lambda>row. row ! 6 \<noteq> NoneC) layout_v1"
  by code_simp

lemma col6_v2: "list_all (\<lambda>row. row ! 6 \<noteq> NoneC) layout_v2"
  by code_simp

lemma sample_bits: "length sample_bitstream = 208" "binary_string sample_bitstream"
  by code_simp+

lemma sample_cells:
  "data_cells 1 ! 0 = (20, 20)" "data_cells 1 ! 3 = (19, 19)" "data_cells 1 ! 207 = (12, 0)"
  by code_simp+

lemma sample_values:
  "sample_bitstream ! 0 = CHR ''1''" "sample_bitstream ! 3 = CHR ''0''"
  "sample_bitstream ! 207 = CHR ''0''"
  by code_simp+

lemma fm_shape_v1: "map length function_map_v1 = replicate 21 21"
  by code_simp

lemma fm_shape_v2: "map length function_map_v2 = replicate 25 25"
  by code_simp

lemma format_strings:
  "list_all (\<lambda>b. case get_format_string ''01'' (format_0b 3 (nat b)) of
                    Inr fmt \<Rightarrow> (case digits_of_string fmt of
                                  Inr bits \<Rightarrow> length bits = 15 | Inl e \<Rightarrow> False)
                  | Inl e \<Rightarrow> False) [0, 1, 2, 3, 4, 5, 6, 7]"
  by code_simp

section \<open>The cells that receive the data bits\<close>

lemma square_of_lengths:
  assumes "map length m = replicate n n"
  shows "length m = n" "\<forall>row\<in>set m. length row = n"
proof -
  show "length m = n" using arg_cong[OF assms, of length] by simp
  show "\<forall>row\<in>set m. length row = n"
  proof
    fix row assume "row \<in> set m"
    then have "length row \<in> set (map length m)" by simp
    then show "length row = n" unfolding assms by simp
  qed
qed

lemma unset_cells:
  assumes "map (map (\<lambda>v. v = NoneC)) layout = map (map Not) fm"
    "r < length layout" "c < length (layout ! r)"
  shows "(layout ! r ! c = NoneC) = (\<not> fm ! r ! c)"
proof -
  have l: "length fm = length layout" using arg_cong[OF assms(1), of length] by simp
  have row: "map (\<lambda>v. v = NoneC) (layout ! r) = map Not (fm ! r)"
    using arg_cong[OF assms(1), of "\<lambda>xs. xs ! r"] assms(2) l by simp
  have lr: "length (fm ! r) = length (layout ! r)"
    using arg_cong[OF row, of length] by simp
  show ?thesis
    using arg_cong[OF row, of "\<lambda>xs. xs ! c"] assms(3) lr by simp
qed

lemma placement_cells:
  assumes n: "1 \<le> n" "size' = int n"
    and chain: "column_chain (size' - 1) cs"
    and gaps: "sorted_wrt (\<lambda>a b. b + 1 < a) cs" "\<forall>c\<in>set cs. 1 \<le> c \<and> c < n"
    and lens: "map length layout = replicate n n"
    and free: "length (free_cells layout (zigzag_path n True cs)) = length bits"
    and bin: "binary_string bits"
    and others: "\<forall>c<n. c \<notin> (\<Union>c\<in>set cs. {c, c - 1}) \<longrightarrow> list_all (\<lambda>row. row ! c \<noteq> NoneC) layout"
    and unset: "map (map (\<lambda>v. v = NoneC)) layout = map (map Not) fm"
  defines "cells \<equiv> free_cells layout (zigzag_path n True cs)"
  shows "\<exists>m. place_data_bits_idx layout size' bits = Some (Inr (m, length bits))
     \<and> place_data_bits layout size' bits = Some (Inr m)
     \<and> length m = n \<and> (\<forall>row\<in>set m. length row = n)
     \<and> distinct cells \<and> length cells = length bits
     \<and> set cells = {(r, c). r < n \<and> c < n \<and> \<not> fm ! r ! c}
     \<and> (\<forall>k<length bits. cell_at m (cells ! k) = IntC (bit_value (bits ! k)))
     \<and> (\<forall>r<n. \<forall>c<n. fm ! r ! c \<longrightarrow> m ! r ! c = layout ! r ! c)"
proof -
  let ?path = "zigzag_path n True cs"
  let ?m = "write_cells bits 0 cells layout"
  note shape = square_of_lengths[OF lens]
  have cov: "(r, c) \<in> set ?path" if "r < n" "c < n" "layout ! r ! c = NoneC" for r c
  proof -
    have "c \<in> (\<Union>c\<in>set cs. {c, c - 1})"
    proof (rule ccontr)
      assume "c \<notin> (\<Union>c\<in>set cs. {c, c - 1})"
      then have "list_all (\<lambda>row. row ! c \<noteq> NoneC) layout" using others that(2) by blast
      then have "layout ! r ! c \<noteq> NoneC" using that(1) shape(1) by (simp add: list_all_length)
      then show False using that(3) by simp
    qed
    then show ?thesis using that(1) unfolding set_zigzag_path by auto
  qed
  have covered: "\<forall>r<n. \<forall>c<n. layout ! r ! c = NoneC \<longrightarrow> (r, c) \<in> set ?path"
    using cov by blast
  have p1: "place_data_bits_idx layout size' bits = Some (Inr (?m, length bits))"
    unfolding cells_def
    by (rule place_data_bits_zigzag(1)[OF n chain gaps shape free bin covered])
  have p2: "place_data_bits layout size' bits = Some (Inr ?m)"
    unfolding cells_def
    by (rule place_data_bits_zigzag(2)[OF n chain gaps shape free bin covered])
  have inpath: "r < n \<and> c < n" if "(r, c) \<in> set ?path" for r c
    using that gaps(2) unfolding set_zigzag_path by auto
  have dist: "distinct cells"
    unfolding cells_def free_cells_def using gaps by (intro distinct_filter distinct_zigzag_path) auto
  have setc: "set cells = {(r, c). r < n \<and> c < n \<and> \<not> fm ! r ! c}"
  proof -
    have "(r, c) \<in> set cells \<longleftrightarrow> r < n \<and> c < n \<and> \<not> fm ! r ! c" for r c
    proof -
      have u: "(layout ! r ! c = NoneC) = (\<not> fm ! r ! c)" if "r < n" "c < n"
        by (rule unset_cells[OF unset]) (use that shape in auto)
      show ?thesis
        using inpath[of r c] cov[of r c] u by (auto simp: cells_def free_cells_def cell_at_def)
    qed
    then show ?thesis by auto
  qed
  have inm: "\<forall>rc\<in>set cells. in_matrix layout rc"
  proof
    fix rc assume a: "rc \<in> set cells"
    obtain r c where rc: "rc = (r, c)" by (cases rc) auto
    have "r < n" "c < n" using a setc rc by auto
    then show "in_matrix layout rc" using shape by (simp add: in_matrix_def rc)
  qed
  have bitsk: "\<forall>k<length bits. cell_at ?m (cells ! k) = IntC (bit_value (bits ! k))"
  proof (intro allI impI)
    fix k assume "k < length bits"
    then have "k < length cells" using free by (simp add: cells_def)
    from write_cells_nth[OF dist inm this, of bits 0]
    show "cell_at ?m (cells ! k) = IntC (bit_value (bits ! k))" by simp
  qed
  have keep: "\<forall>r<n. \<forall>c<n. fm ! r ! c \<longrightarrow> ?m ! r ! c = layout ! r ! c"
  proof (intro allI impI)
    fix r c assume "r < n" "c < n" "fm ! r ! c"
    then have "(r, c) \<notin> set cells" using setc by auto
    from write_cells_other[OF inm this, of bits 0]
    show "?m ! r ! c = layout ! r ! c" by (simp add: cell_at_def)
  qed
  have sq: "length ?m = n" "\<forall>row\<in>set ?m. length row = n"
    using same_shape_square[OF write_cells_shape shape] by blast+
  have lenc: "length cells = length bits" using free by (simp add: cells_def)
  show ?thesis
    by (intro exI[of _ ?m] conjI p1 p2 sq dist lenc setc bitsk keep)
qed

lemma zigzag_columns_v1_facts:
  "column_chain (21 - 1) zigzag_columns_v1"
  "sorted_wrt (\<lambda>a b. b + 1 < a) zigzag_columns_v1"
  "\<forall>c\<in>set zigzag_columns_v1. 1 \<le> c \<and> c < 21"
  by (simp_all add: zigzag_columns_v1_def)

lemma zigzag_columns_v2_facts:
  "column_chain (25 - 1) zigzag_columns_v2"
  "sorted_wrt (\<lambda>a b. b + 1 < a) zigzag_columns_v2"
  "\<forall>c\<in>set zigzag_columns_v2. 1 \<le> c \<and> c < 25"
  by (simp_all add: zigzag_columns_v2_def)

lemma other_columns_v1:
  "\<forall>c<21. c \<notin> (\<Union>c\<in>set zigzag_columns_v1. {c, c - 1})
     \<longrightarrow> list_all (\<lambda>row. row ! c \<noteq> NoneC) layout_v1"
proof (intro allI impI)
  fix c :: nat assume c: "c < 21" and out: "c \<notin> (\<Union>c\<in>set zigzag_columns_v1. {c, c - 1})"
  have "list_all (\<lambda>c. c = 6 \<or> c \<in> set (concat (map (\<lambda>c. [c, c - 1]) zigzag_columns_v1))) [0..<21]"
    by code_simp
  then have "c = 6 \<or> c \<in> set (concat (map (\<lambda>c. [c, c - 1]) zigzag_columns_v1))"
    using c by (simp add: list_all_iff)
  then have "c = 6" using out by auto
  then show "list_all (\<lambda>row. row ! c \<noteq> NoneC) layout_v1" using col6_v1 by simp
qed

lemma other_columns_v2:
  "\<forall>c<25. c \<notin> (\<Union>c\<in>set zigzag_columns_v2. {c, c - 1})
     \<longrightarrow> list_all (\<lambda>row. row ! c \<noteq> NoneC) layout_v2"
proof (intro allI impI)
  fix c :: nat assume c: "c < 25" and out: "c \<notin> (\<Union>c\<in>set zigzag_columns_v2. {c, c - 1})"
  have "list_all (\<lambda>c. c = 6 \<or> c \<in> set (concat (map (\<lambda>c. [c, c - 1]) zigzag_columns_v2))) [0..<25]"
    by code_simp
  then have "c = 6 \<or> c \<in> set (concat (map (\<lambda>c. [c, c - 1]) zigzag_columns_v2))"
    using c by (simp add: list_all_iff)
  then have "c = 6" using out by auto
  then show "list_all (\<lambda>row. row ! c \<noteq> NoneC) layout_v2" using col6_v2 by simp
qed

lemma placement_v1:
  assumes len: "length bits = 208" and bin: "binary_string bits"
  shows "\<exists>m. place_data_bits_idx layout_v1 21 bits = Some (Inr (m, length bits))
     \<and> place_data_bits layout_v1 21 bits = Some (Inr m)
     \<and> length m = 21 \<and> (\<forall>row\<in>set m. length row = 21)
     \<and> distinct (data_cells 1) \<and> length (data_cells 1) = length bits
     \<and> set (data_cells 1) = {(r, c). r < 21 \<and> c < 21 \<and> \<not> function_map_v1 ! r ! c}
     \<and> (\<forall>k<length bits. cell_at m (data_cells 1 ! k) = IntC (bit_value (bits ! k)))
     \<and> (\<forall>r<21. \<forall>c<21. function_map_v1 ! r ! c \<longrightarrow> m ! r ! c = layout_v1 ! r ! c)"
proof -
  have free: "length (free_cells layout_v1 (zigzag_path 21 True zigzag_columns_v1)) = length bits"
    using free_v1 len by simp
  have d: "data_cells 1 = free_cells layout_v1 (zigzag_path 21 True zigzag_columns_v1)"
    by (simp add: data_cells_def)
  have n: "1 \<le> (21 :: nat)" "(21 :: int) = int 21" by simp_all
  show ?thesis
    unfolding d
    by (rule placement_cells[OF n zigzag_columns_v1_facts shape_v1 free bin other_columns_v1 unset_v1])
qed

lemma placement_v2:
  assumes len: "length bits = 359" and bin: "binary_string bits"
  shows "\<exists>m. place_data_bits_idx layout_v2 25 bits = Some (Inr (m, length bits))
     \<and> place_data_bits layout_v2 25 bits = Some (Inr m)
     \<and> length m = 25 \<and> (\<forall>row\<in>set m. length row = 25)
     \<and> distinct (data_cells 2) \<and> length (data_cells 2) = length bits
     \<and> set (data_cells 2) = {(r, c). r < 25 \<and> c < 25 \<and> \<not> function_map_v2 ! r ! c}
     \<and> (\<forall>k<length bits. cell_at m (data_cells 2 ! k) = IntC (bit_value (bits ! k)))
     \<and> (\<forall>r<25. \<forall>c<25. function_map_v2 ! r ! c \<longrightarrow> m ! r ! c = layout_v2 ! r ! c)"
proof -
  have free: "length (free_cells layout_v2 (zigzag_path 25 True zigzag_columns_v2)) = length bits"
    using free_v2 len by simp
  have d: "data_cells 2 = free_cells layout_v2 (zigzag_path 25 True zigzag_columns_v2)"
    by (simp add: data_cells_def)
  have n: "1 \<le> (25 :: nat)" "(25 :: int) = int 25" by simp_all
  show ?thesis
    unfolding d
    by (rule placement_cells[OF n zigzag_columns_v2_facts shape_v2 free bin other_columns_v2 unset_v2])
qed

lemma generate_qr_module_1: "generate_qr_module bits 1 = place_data_bits layout_v1 21 bits"
  by (simp add: generate_qr_module_def layout_function_patterns_1 get_size_from_version_def)

lemma generate_qr_module_2: "generate_qr_module bits 2 = place_data_bits layout_v2 25 bits"
  by (simp add: generate_qr_module_def layout_function_patterns_2 get_size_from_version_def)

text \<open>
  Claim C7.  For version 1 and version 2, the function map of
  \<open>create_function_pattern_matrix\<close> has as many cells marked non-function as the
  bitstream of the version is long: 208 = 8 * (19 + 7) + 0 and 359 = 8 * (34 + 10) + 7.
  For a bitstream of that length, \<open>place_data_bits\<close> applied to the laid-out matrix
  returns; the loop ends with \<open>bit_idx\<close> equal to the length of the stream (the whole
  stream is consumed); the cells \<open>data_cells version\<close> are pairwise distinct, are
  exactly the non-function cells, and the \<open>k\<close>-th of them holds the \<open>k\<close>-th bit of
  the stream; the function cells keep the value they had.
\<close>

theorem place_data_bits_fills_data_cells:
  assumes v: "version = 1 \<or> version = 2"
    and len: "get_expected_bitstream_length_for_version version = Inr (int (length bits))"
    and bin: "binary_string bits"
  shows "\<exists>fm layout m n.
       get_size_from_version version = Inr (int n)
     \<and> create_function_pattern_matrix version = Inr fm
     \<and> length (filter (\<lambda>b. \<not> b) (concat fm)) = length bits
     \<and> length bits = (if version = 1 then 208 else 359)
     \<and> length bits = (if version = 1 then 8 * (19 + 7) + 0 else 8 * (34 + 10) + 7)
     \<and> layout_function_patterns version = Inr layout
     \<and> place_data_bits_idx layout (int n) bits = Some (Inr (m, length bits))
     \<and> place_data_bits layout (int n) bits = Some (Inr m)
     \<and> generate_qr_module bits version = Some (Inr m)
     \<and> distinct (data_cells version) \<and> length (data_cells version) = length bits
     \<and> set (data_cells version) = {(r, c). r < n \<and> c < n \<and> \<not> fm ! r ! c}
     \<and> (\<forall>k<length bits. cell_at m (data_cells version ! k) = IntC (bit_value (bits ! k)))
     \<and> (\<forall>r<n. \<forall>c<n. fm ! r ! c \<longrightarrow> m ! r ! c = layout ! r ! c)"
  using v
proof
  assume v1: "version = 1"
  have l: "length bits = 208"
    using len by (simp add: v1 get_expected_bitstream_length_for_version_def
        V1_EFFECTIVE_BITSTREAM_LENGTH_def V1_L_TOTAL_CODEWORDS_def)
  from placement_v1[OF l bin] obtain m where m:
    "place_data_bits_idx layout_v1 21 bits = Some (Inr (m, length bits))"
    "place_data_bits layout_v1 21 bits = Some (Inr m)"
    "distinct (data_cells 1)" "length (data_cells 1) = length bits"
    "set (data_cells 1) = {(r, c). r < 21 \<and> c < 21 \<and> \<not> function_map_v1 ! r ! c}"
    "\<forall>k<length bits. cell_at m (data_cells 1 ! k) = IntC (bit_value (bits ! k))"
    "\<forall>r<21. \<forall>c<21. function_map_v1 ! r ! c \<longrightarrow> m ! r ! c = layout_v1 ! r ! c"
    by blast
  have s: "get_size_from_version version = Inr (int 21)"
    by (simp add: v1 get_size_from_version_def)
  have c: "length (filter (\<lambda>b. \<not> b) (concat function_map_v1)) = length bits"
    using count_v1 l by simp
  have g: "generate_qr_module bits version = Some (Inr m)"
    using m(2) by (simp add: v1 generate_qr_module_1)
  have l2: "length bits = (if version = 1 then 208 else 359)"
    "length bits = (if version = 1 then 8 * (19 + 7) + 0 else 8 * (34 + 10) + 7)"
    using l v1 by simp_all
  have i: "place_data_bits_idx layout_v1 (int 21) bits = Some (Inr (m, length bits))"
    "place_data_bits layout_v1 (int 21) bits = Some (Inr m)"
    using m(1,2) by simp_all
  show ?thesis
    unfolding v1
    by (intro exI[of _ function_map_v1] exI[of _ layout_v1] exI[of _ m] exI[of _ 21] conjI
        s[unfolded v1] create_function_pattern_matrix_1 c l2[unfolded v1] layout_function_patterns_1
        i g[unfolded v1] m(3-7))
next
  assume v2: "version = 2"
  have l: "length bits = 359"
    using len by (simp add: v2 get_expected_bitstream_length_for_version_def
        V2_EFFECTIVE_BITSTREAM_LENGTH_def V2_L_TOTAL_CODEWORDS_def)
  from placement_v2[OF l bin] obtain m where m:
    "place_data_bits_idx layout_v2 25 bits = Some (Inr (m, length bits))"
    "place_data_bits layout_v2 25 bits = Some (Inr m)"
    "distinct (data_cells 2)" "length (data_cells 2) = length bits"
    "set (data_cells 2) = {(r, c). r < 25 \<and> c < 25 \<and> \<not> function_map_v2 ! r ! c}"
    "\<forall>k<length bits. cell_at m (data_cells 2 ! k) = IntC (bit_value (bits ! k))"
    "\<forall>r<25. \<forall>c<25. function_map_v2 ! r ! c \<longrightarrow> m ! r ! c = layout_v2 ! r ! c"
    by blast
  have s: "get_size_from_version version = Inr (int 25)"
    by (simp add: v2 get_size_from_version_def)
  have c: "length (filter (\<lambda>b. \<not> b) (concat function_map_v2)) = length bits"
    using count_v2 l by simp
  have g: "generate_qr_module bits version = Some (Inr m)"
    using m(2) by (simp add: v2 generate_qr_module_2)
  have l2: "length bits = (if version = 1 then 208 else 359)"
    "length bits = (if version = 1 then 8 * (19 + 7) + 0 else 8 * (34 + 10) + 7)"
    using l v2 by simp_all
  have i: "place_data_bits_idx layout_v2 (int 25) bits = Some (Inr (m, length bits))"
    "place_data_bits layout_v2 (int 25) bits = Some (Inr m)"
    using m(1,2) by simp_all
  show ?thesis
    unfolding v2
    by (intro exI[of _ function_map_v2] exI[of _ layout_v2] exI[of _ m] exI[of _ 25] conjI
        s[unfolded v2] create_function_pattern_matrix_2 c l2[unfolded v2] layout_function_patterns_2
        i g[unfolded v2] m(3-7))
qed

text \<open>
  The theorem of C7 at version 1 and the stream \<open>sample_bitstream\<close>: the first bit
  (1) is in the bottom right corner, the fourth bit (0) in the cell (19, 19), the
  last bit (0) in the cell (12, 0).
\<close>

theorem place_data_bits_fills_data_cells_witness:
  "\<exists>m. generate_qr_module sample_bitstream 1 = Some (Inr m)
     \<and> place_data_bits_idx layout_v1 21 sample_bitstream = Some (Inr (m, 208))
     \<and> length (data_cells 1) = 208
     \<and> data_cells 1 ! 0 = (20, 20) \<and> cell_at m (20, 20) = IntC 1
     \<and> data_cells 1 ! 3 = (19, 19) \<and> cell_at m (19, 19) = IntC 0
     \<and> data_cells 1 ! 207 = (12, 0) \<and> cell_at m (12, 0) = IntC 0"
proof -
  have v: "(1 :: int) = 1 \<or> (1 :: int) = 2" by simp
  have len: "get_expected_bitstream_length_for_version 1 = Inr (int (length sample_bitstream))"
    by (simp add: sample_bits(1) get_expected_bitstream_length_for_version_def
        V1_EFFECTIVE_BITSTREAM_LENGTH_def V1_L_TOTAL_CODEWORDS_def)
  from place_data_bits_fills_data_cells[OF v len sample_bits(2)]
  obtain fm layout m n where r:
    "get_size_from_version 1 = Inr (int n)"
    "layout_function_patterns 1 = Inr layout"
    "place_data_bits_idx layout (int n) sample_bitstream = Some (Inr (m, length sample_bitstream))"
    "generate_qr_module sample_bitstream 1 = Some (Inr m)"
    "length (data_cells 1) = length sample_bitstream"
    "\<forall>k<length sample_bitstream.
        cell_at m (data_cells 1 ! k) = IntC (bit_value (sample_bitstream ! k))"
    by blast
  have n: "int n = 21" using r(1) by (simp add: get_size_from_version_def)
  have l: "layout = layout_v1" using r(2) by (simp add: layout_function_patterns_1)
  have c0: "cell_at m (20, 20) = IntC 1"
    using r(6)[rule_format, of 0] sample_cells(1) sample_bits(1) sample_values(1) by (simp add: bit_value_def)
  have c3: "cell_at m (19, 19) = IntC 0"
    using r(6)[rule_format, of 3] sample_cells(2) sample_bits(1) sample_values(2) by (simp add: bit_value_def)
  have c207: "cell_at m (12, 0) = IntC 0"
    using r(6)[rule_format, of 207] sample_cells(3) sample_bits(1) sample_values(3) by (simp add: bit_value_def)
  have i: "place_data_bits_idx layout_v1 21 sample_bitstream = Some (Inr (m, 208))"
    using r(3) unfolding n l sample_bits(1) .
  have lc: "length (data_cells 1) = 208" using r(5) sample_bits(1) by simp
  show ?thesis
    by (intro exI[of _ m] conjI r(4) i lc sample_cells c0 c3 c207)
qed

section \<open>The pipeline from the text to the final matrix\<close>

lemma fold_err_inv:
  assumes "P s" and "\<And>x s. x \<in> set xs \<Longrightarrow> P s \<Longrightarrow> \<exists>s'. f x s = Inr s' \<and> P s'"
  shows "\<exists>s'. fold_err f xs s = Inr s' \<and> P s'"
  using assms
proof (induction xs arbitrary: s)
  case Nil
  then show ?case by simp
next
  case (Cons x xs)
  obtain s1 where s1: "f x s = Inr s1" "P s1" using Cons.prems(2)[of x s] Cons.prems(1) by auto
  have "\<exists>s'. fold_err f xs s1 = Inr s' \<and> P s'"
    by (rule Cons.IH[OF s1(2)]) (use Cons.prems(2) in auto)
  then show ?case using s1(1) by simp
qed

lemma fold_err_inv_idx:
  assumes "P 0 s"
    and "\<And>k s. k < length xs \<Longrightarrow> P k s \<Longrightarrow> \<exists>s'. f (xs ! k) s = Inr s' \<and> P (Suc k) s'"
  shows "\<exists>s'. fold_err f xs s = Inr s' \<and> P (length xs) s'"
  using assms
proof (induction xs arbitrary: s P)
  case Nil
  then show ?case by simp
next
  case (Cons x xs)
  obtain s1 where s1: "f x s = Inr s1" "P (Suc 0) s1"
    using Cons.prems(2)[of 0 s] Cons.prems(1) by auto
  have "\<exists>s'. fold_err f xs s1 = Inr s' \<and> (\<lambda>k. P (Suc k)) (length xs) s'"
  proof (rule Cons.IH)
    show "P (Suc 0) s1" by (rule s1(2))
    fix k s assume "k < length xs" "P (Suc k) s"
    then show "\<exists>s'. f (xs ! k) s = Inr s' \<and> P (Suc (Suc k)) s'"
      using Cons.prems(2)[of "Suc k" s] by simp
  qed
  then show ?case using s1(1) by simp
qed

lemma square_in_matrix: "square n m \<Longrightarrow> in_matrix m rc = (fst rc < n \<and> snd rc < n)"
  by (auto simp: square_def in_matrix_def)

lemma square_put: "square n m \<Longrightarrow> square n (put_cell m rc v)"
proof -
  assume s: "square n m"
  have "same_shape (put_cell m rc v) m" by simp
  then have "map length (put_cell m rc v) = map length m" by (simp add: same_shape_def)
  moreover have "map length m = replicate n n"
    using s by (auto simp: square_def intro: replicate_eqI)
  ultimately have e: "map length (put_cell m rc v) = replicate n n" by simp
  have "length (put_cell m rc v) = n" using arg_cong[OF e, of length] by simp
  moreover have "\<forall>row\<in>set (put_cell m rc v). length row = n"
  proof
    fix row assume "row \<in> set (put_cell m rc v)"
    then have "length row \<in> set (map length (put_cell m rc v))" by simp
    then show "length row = n" unfolding e by simp
  qed
  ultimately show ?thesis by (simp add: square_def)
qed

lemma set_cell_square:
  assumes "square n m" "0 \<le> r" "r < int n" "0 \<le> c" "c < int n"
  shows "set_cell m r c v = Inr (put_cell m (nat r, nat c) v)"
proof -
  have "in_matrix m (nat r, nat c)" using assms by (simp add: square_in_matrix nat_less_iff)
  from set_cell_nat[OF this, of v] show ?thesis using assms by simp
qed

lemma get_cell_square:
  assumes "square n m" "0 \<le> r" "r < int n" "0 \<le> c" "c < int n"
  shows "get_cell m r c = Inr (cell_at m (nat r, nat c))"
proof -
  have "in_matrix m (nat r, nat c)" using assms by (simp add: square_in_matrix nat_less_iff)
  from get_cell_nat[OF this] show ?thesis using assms by simp
qed

lemma primary_coordinates:
  "\<forall>(i, (r, c))\<in>set (enumerate 0 FORMAT_INFO_COORDINATES_PRIMARY). i < 15 \<and> 0 \<le> r \<and> r \<le> 8 \<and> 0 \<le> c \<and> c \<le> 8"
  by (simp add: FORMAT_INFO_COORDINATES_PRIMARY_def)

lemma place_format_information_dark:
  assumes sq: "square n m" and n: "int n = 4 * version + 17" and v: "1 \<le> version" "version \<le> 40"
    and fmt: "digits_of_string fmt = Inr bits" "length bits = 15"
  shows "\<exists>final. place_format_information m fmt (int n) = Inr (Some final) \<and> square n final
     \<and> get_cell final (4 * version + 9) 8 = Inr (IntC 1)"
proof -
  have n21: "21 \<le> n" using n v by simp
  have nth: "nth_err bits i = Inr (bits ! i)" if "i < 15" for i
    using that fmt(2) by (simp add: nth_err_def)
  let ?f1 = "\<lambda>(i, (r, c)) m. ebind (nth_err bits i) (\<lambda>b. set_cell m r c (IntC b))"
  have "\<exists>m1. fold_err ?f1 (enumerate 0 FORMAT_INFO_COORDINATES_PRIMARY) m = Inr m1 \<and> square n m1"
  proof (rule fold_err_inv[where P = "square n", OF sq])
    fix x :: "nat \<times> int \<times> int" and s :: qr_matrix
    assume x: "x \<in> set (enumerate 0 FORMAT_INFO_COORDINATES_PRIMARY)" and s: "square n s"
    obtain i r c where xe: "x = (i, (r, c))" by (cases x) auto
    have b: "i < 15 \<and> 0 \<le> r \<and> r \<le> 8 \<and> 0 \<le> c \<and> c \<le> 8"
      using primary_coordinates x xe by blast
    then have "set_cell s r c (IntC (bits ! i)) = Inr (put_cell s (nat r, nat c) (IntC (bits ! i)))"
      using n21 by (intro set_cell_square[OF s]) simp_all
    then show "\<exists>s'. ?f1 x s = Inr s' \<and> square n s'"
      using b nth square_put[OF s] by (simp add: xe)
  qed
  then obtain m1 where m1: "fold_err ?f1 (enumerate 0 FORMAT_INFO_COORDINATES_PRIMARY) m = Inr m1"
    "square n m1" by blast
  let ?f2 = "\<lambda>i m. ebind (nth_err bits (nat i)) (\<lambda>b. set_cell m 8 (int n - 1 - i) (IntC b))"
  have "\<exists>m2. fold_err ?f2 [0..7] m1 = Inr m2 \<and> square n m2"
  proof (rule fold_err_inv[where P = "square n", OF m1(2)])
    fix i :: int and s :: qr_matrix
    assume i: "i \<in> set [0..7]" and s: "square n s"
    have b: "0 \<le> i" "i \<le> 7" using i by simp_all
    have "set_cell s 8 (int n - 1 - i) (IntC (bits ! nat i)) =
        Inr (put_cell s (nat 8, nat (int n - 1 - i)) (IntC (bits ! nat i)))"
      using n21 b by (intro set_cell_square[OF s]) simp_all
    then show "\<exists>s'. ?f2 i s = Inr s' \<and> square n s'"
      using b nth[of "nat i"] square_put[OF s] by simp
  qed
  then obtain m2 where m2: "fold_err ?f2 [0..7] m1 = Inr m2" "square n m2" by blast
  let ?f3 = "\<lambda>r_coord (m, idx).
             if r_coord = 6 then Inr (m, idx)
             else ebind (nth_err bits idx) (\<lambda>b.
                  ebind (set_cell m r_coord 8 (IntC b)) (\<lambda>m. Inr (m, idx + 1)))"
  let ?P3 = "\<lambda>k (s :: qr_matrix \<times> nat). square n (fst s) \<and> snd s = 8 + k - (if k > 6 then 1 else 0)"
  have "\<exists>s3. fold_err ?f3 [0..7] (m2, 8) = Inr s3 \<and> ?P3 (length [0..7 :: int]) s3"
  proof (rule fold_err_inv_idx[where P = ?P3])
    show "?P3 0 (m2, 8)" using m2(2) by simp
    fix k and s :: "qr_matrix \<times> nat"
    assume k: "k < length [0..7 :: int]" and P: "?P3 k s"
    obtain ms idx where se: "s = (ms, idx)" by (cases s) auto
    have k8: "k < 8" using k by simp
    have xk: "[0..7 :: int] ! k = int k" using k8 by (simp add: upto_0_7 nth_Cons split: nat.splits)
    have sqs: "square n ms" and idx: "idx = 8 + k - (if k > 6 then 1 else 0)" using P se by simp_all
    show "\<exists>s'. ?f3 ([0..7] ! k) s = Inr s' \<and> ?P3 (Suc k) s'"
    proof (cases "k = 6")
      case True
      then show ?thesis using sqs idx by (simp add: xk se)
    next
      case False
      have i15: "idx < 15" using idx k8 False by auto
      have "set_cell ms (int k) 8 (IntC (bits ! idx)) =
          Inr (put_cell ms (nat (int k), nat 8) (IntC (bits ! idx)))"
        using n21 k8 by (intro set_cell_square[OF sqs]) simp_all
      then show ?thesis
        using False nth[OF i15] square_put[OF sqs] idx k8 by (auto simp: xk se)
    qed
  qed
  then obtain m3 i3 where m3: "fold_err ?f3 [0..7] (m2, 8) = Inr (m3, i3)" "square n m3"
    by (metis prod.collapse)
  let ?f4 = "\<lambda>i (m, idx).
             ebind (nth_err bits idx) (\<lambda>b.
             ebind (set_cell m (int n - 1 - i) 8 (IntC b)) (\<lambda>m. Inr (m, idx + 1)))"
  let ?P4 = "\<lambda>k (s :: qr_matrix \<times> nat). square n (fst s) \<and> snd s = k"
  have "\<exists>s4. fold_err ?f4 [0..7] (m3, 0) = Inr s4 \<and> ?P4 (length [0..7 :: int]) s4"
  proof (rule fold_err_inv_idx[where P = ?P4])
    show "?P4 0 (m3, 0)" using m3(2) by simp
    fix k and s :: "qr_matrix \<times> nat"
    assume k: "k < length [0..7 :: int]" and P: "?P4 k s"
    obtain ms idx where se: "s = (ms, idx)" by (cases s) auto
    have k8: "k < 8" using k by simp
    have xk: "[0..7 :: int] ! k = int k" using k8 by (simp add: upto_0_7 nth_Cons split: nat.splits)
    have sqs: "square n ms" and idx: "idx = k" using P se by simp_all
    have i15: "idx < 15" using idx k8 by simp
    have "set_cell ms (int n - 1 - int k) 8 (IntC (bits ! idx)) =
        Inr (put_cell ms (nat (int n - 1 - int k), nat 8) (IntC (bits ! idx)))"
      using n21 k8 by (intro set_cell_square[OF sqs]) simp_all
    then show "\<exists>s'. ?f4 ([0..7] ! k) s = Inr s' \<and> ?P4 (Suc k) s'"
      using nth[OF i15] square_put[OF sqs] idx by (simp add: xk se)
  qed
  then obtain m4 i4 where m4: "fold_err ?f4 [0..7] (m3, 0) = Inr (m4, i4)" "square n m4"
    by (metis prod.collapse)
  have ver: "get_version_from_size (int n) = Inr version"
    using n v by (simp add: get_version_from_size_def)
  let ?m5 = "put_cell m4 (8, 0) (IntC (bits ! 8))"
  let ?final = "put_cell ?m5 (nat (4 * version + 9), 8) (IntC 1)"
  have sq5: "square n ?m5" by (rule square_put[OF m4(2)])
  have s5: "set_cell m4 8 0 (IntC (bits ! 8)) = Inr ?m5"
    using set_cell_square[OF m4(2), of 8 0] n21 by simp
  have dark: "0 \<le> 4 * version + 9" "4 * version + 9 < int n" using n v by simp_all
  have s6: "set_cell ?m5 (4 * version + 9) 8 (IntC 1) = Inr ?final"
    using set_cell_square[OF sq5 dark, of 8] n21 by simp
  have last: "format_last_loop [0..7] m4 bits 8 version = Inr (Some ?final)"
    using nth[of 8] s5 s6 by (simp add: upto_0_7 Let_def)
  have sqf: "square n ?final" by (rule square_put[OF sq5])
  have "in_matrix ?m5 (nat (4 * version + 9), 8)"
    using dark n21 by (simp add: square_in_matrix[OF m4(2)] nat_less_iff)
  then have val: "cell_at ?final (nat (4 * version + 9), 8) = IntC 1"
    by (simp add: cell_at_put)
  have g: "get_cell ?final (4 * version + 9) 8 = Inr (IntC 1)"
    using get_cell_square[OF sqf dark, of 8] n21 val by simp
  have "place_format_information m fmt (int n) = Inr (Some ?final)"
    unfolding place_format_information_def
    by (simp only: fmt(1) ebind_simps m1(1) m2(1) m3(1) m4(1) prod.case ver last)
  then show ?thesis using sqf g by blast
qed


lemma binary_string_append [simp]:
  "binary_string (xs @ ys) = (binary_string xs \<and> binary_string ys)"
  by (simp add: binary_string_def)

lemma binary_string_Nil [simp]: "binary_string []"
  by (simp add: binary_string_def)

lemma binary_string_Cons [simp]:
  "binary_string (ch # s) = ((ch = CHR ''0'' \<or> ch = CHR ''1'') \<and> binary_string s)"
  by (simp add: binary_string_def)

lemma binary_string_concat: "binary_string (concat xss) = (\<forall>xs\<in>set xss. binary_string xs)"
  by (induction xss) simp_all

lemma binary_string_replicate [simp]: "binary_string (replicate k CHR ''0'')"
  by (simp add: binary_string_def list_all_iff)

lemma binary_string_bits_msb [simp]: "binary_string (bits_msb k n)"
  by (auto simp: binary_string_def bits_msb_def list_all_iff)

lemma binary_string_pad_codewords [simp]: "binary_string (pad_codewords k)"
  unfolding pad_codewords_def binary_string_concat by auto

lemma encode_byte_mode_codewords:
  assumes "encode_byte_mode text = Inr (cws, v)"
  shows "v = 1 \<or> v = 2" "length cws = (if v = 1 then 19 else 34)"
    "\<forall>cw\<in>set cws. length cw = 8 \<and> binary_string cw"
proof -
  have bytes: "\<forall>c\<in>set text. c \<le> 255"
    using assms by (auto simp: encode_byte_mode_def encode_iso_8859_1_eq split: if_splits)
  then have enc: "encode_iso_8859_1 text = Some text" by (simp add: encode_iso_8859_1_eq)
  have fits: "length text \<le> 32"
    using assms by (auto simp: encode_byte_mode_def enc split: if_splits)
  define d :: nat where "d = (if length text \<le> 17 then 19 else 34)"
  have cv: "cws = build_codewords text d" "v = (if length text \<le> 17 then 1 else 2)"
    using assms fits by (auto simp: encode_byte_mode_def enc d_def split: if_splits)
  have room: "length text + 2 \<le> d" using fits by (simp add: d_def)
  have small: "length text \<le> 255" using fits by simp
  note st = build_codewords_stream[OF bytes room small]
  show "v = 1 \<or> v = 2" using cv(2) by simp
  show "length cws = (if v = 1 then 19 else 34)" using st(1) cv by (simp add: d_def)
  have "binary_string (concat cws)"
    unfolding cv(1) st(3) by (simp add: binary_string_concat)
  then have "\<forall>cw\<in>set cws. binary_string cw" by (simp add: binary_string_concat)
  then show "\<forall>cw\<in>set cws. length cw = 8 \<and> binary_string cw" using st(2) cv(1) by simp
qed

lemma base2_bound:
  fixes acc :: int
  assumes "binary_string s" "0 \<le> acc"
  shows "0 \<le> foldl (\<lambda>acc ch. 2 * acc + (if ch = CHR ''1'' then 1 else 0)) acc s
     \<and> foldl (\<lambda>acc ch. 2 * acc + (if ch = CHR ''1'' then 1 else 0)) acc s < (acc + 1) * 2 ^ length s"
  using assms
proof (induction s arbitrary: acc)
  case Nil
  then show ?case by auto
next
  case (Cons ch s)
  define a :: int where "a = 2 * acc + (if ch = CHR ''1'' then 1 else 0)"
  let ?F = "foldl (\<lambda>acc ch. 2 * acc + (if ch = CHR ''1'' then 1 else 0))"
  have b: "binary_string s" using Cons.prems(1) by simp
  have a0: "0 \<le> a" using Cons.prems(2) by (simp add: a_def)
  have IH: "0 \<le> ?F a s" "?F a s < (a + 1) * 2 ^ length s"
    using Cons.IH[OF b a0] by simp_all
  have "a + 1 \<le> 2 * (acc + 1)" by (simp add: a_def)
  then have "(a + 1) * 2 ^ length s \<le> (2 * (acc + 1)) * 2 ^ length s"
    by (intro mult_right_mono) simp_all
  also have "\<dots> = (acc + 1) * 2 ^ length (ch # s)" by simp
  finally have le: "(a + 1) * 2 ^ length s \<le> (acc + 1) * 2 ^ length (ch # s)" .
  have eq: "?F acc (ch # s) = ?F a s" by (simp add: a_def)
  show ?case unfolding eq using IH le by linarith
qed

lemma int_base2_byte:
  assumes "length cw = 8" "binary_string cw"
  shows "\<exists>x. int_base2 cw = Inr x \<and> byte x"
proof -
  have ne: "cw \<noteq> []" using assms(1) by auto
  have "list_all (\<lambda>ch. ch = CHR ''0'' \<or> ch = CHR ''1'') cw" using assms(2) by (simp add: binary_string_def)
  then have "int_base2 cw = Inr (foldl (\<lambda>acc ch. 2 * acc + (if ch = CHR ''1'' then 1 else 0)) 0 cw)"
    using ne by (simp add: int_base2_def)
  moreover have "byte (foldl (\<lambda>acc ch. 2 * acc + (if ch = CHR ''1'' then 1 else 0)) 0 cw)"
    using base2_bound[OF assms(2) order_refl] assms(1) by (simp add: byte_def)
  ultimately show ?thesis by blast
qed

lemma map_err_all:
  assumes "\<forall>x\<in>set xs. \<exists>y. f x = Inr y \<and> P y"
  shows "\<exists>ys. map_err f xs = Inr ys \<and> length ys = length xs \<and> (\<forall>y\<in>set ys. P y)"
  using assms
proof (induction xs)
  case Nil
  then show ?case by simp
next
  case (Cons x xs)
  obtain y where y: "f x = Inr y" "P y" using Cons.prems by auto
  obtain ys where ys: "map_err f xs = Inr ys" "length ys = length xs" "\<forall>y\<in>set ys. P y"
    using Cons.IH Cons.prems by auto
  show ?case using y ys by simp
qed

lemma byte_xor: "byte a \<Longrightarrow> byte b \<Longrightarrow> byte (a XOR b)"
  using XOR_upper[of a 8 b] by (simp add: byte_def)

lemma byte_0 [simp]: "byte 0" and byte_1 [simp]: "byte 1"
  by (simp_all add: byte_def)

lemma byte_xtime: "byte a \<Longrightarrow> byte (gf_xtime a)"
proof -
  assume a: "byte a"
  have all: "list_all (\<lambda>a. 0 \<le> gf_xtime a \<and> gf_xtime a < 256) (map int [0..<256])"
    by code_simp
  have eq: "a = int (nat a)" using a by (simp add: byte_def)
  have mem: "nat a \<in> set [0..<256]" using a by (auto simp: byte_def)
  have "a \<in> int ` set [0..<256]" by (rule image_eqI[where f = int and x = "nat a", OF eq mem])
  then have "a \<in> set (map int [0..<256])" by (simp only: set_map)
  then show ?thesis using all unfolding list_all_iff byte_def by blast
qed

lemma byte_xtime_pow: "byte a \<Longrightarrow> byte ((gf_xtime ^^ i) a)"
  by (induction i) (simp_all add: byte_xtime)

lemma byte_mul_upto: "byte a \<Longrightarrow> byte (gf_mul_upto a b n)"
  by (induction n) (simp_all add: byte_xor byte_xtime_pow)

lemma byte_mul: "byte a \<Longrightarrow> byte (gf_mul a b)"
  by (simp add: gf_mul_def byte_mul_upto)

lemma byte_pow: "byte (gf_pow a n)"
  by (induction n) (simp_all add: byte_mul)

lemma bytes_scale: "list_all byte p \<Longrightarrow> list_all byte (poly_scale p c)"
  by (simp add: poly_scale_def list_all_iff byte_mul)

lemma bytes_map2_xor:
  "list_all byte p \<Longrightarrow> list_all byte q \<Longrightarrow> list_all byte (map2 (XOR) p q)"
  by (induction p q rule: list_induct2') (simp_all add: byte_xor)

lemma bytes_add: "list_all byte p \<Longrightarrow> list_all byte q \<Longrightarrow> list_all byte (poly_add p q)"
  unfolding poly_add_def Let_def
  by (rule bytes_map2_xor) (auto simp: list_all_iff)

lemma bytes_mul: "list_all byte q \<Longrightarrow> list_all byte (poly_mul p q)"
proof (induction p)
  case Nil
  show ?case by simp
next
  case (Cons c p)
  have "list_all byte (poly_scale q c @ replicate (length p) 0)"
    using bytes_scale[OF Cons.prems, of c] by (auto simp: list_all_iff)
  then show ?case using Cons by (simp add: bytes_add)
qed

lemma bytes_generator: "list_all byte (rs_generator_poly e)"
proof -
  have "list_all byte g \<Longrightarrow> list_all byte (foldl (\<lambda>g i. poly_mul g [1, gf_pow gf_alpha i]) g is)" for g "is"
    by (induction "is" arbitrary: g) (simp_all add: bytes_mul byte_pow)
  then show ?thesis by (simp add: rs_generator_poly_def)
qed

lemma bytes_xor_into: "list_all byte xs \<Longrightarrow> list_all byte ys \<Longrightarrow> list_all byte (xor_into xs ys)"
  by (induction xs ys rule: xor_into.induct) (simp_all add: byte_xor)

lemma bytes_divide:
  "list_all byte g \<Longrightarrow> list_all byte r \<Longrightarrow> list_all byte (poly_divide_steps n g r)"
proof (induction n arbitrary: r)
  case 0
  then show ?case by simp
next
  case (Suc n)
  show ?case
  proof (cases r)
    case Nil
    then show ?thesis by simp
  next
    case (Cons c r')
    have "list_all byte (tl g)" using Suc.prems(1) by (cases g) simp_all
    then have "list_all byte (xor_into (poly_scale (tl g) c) r')"
      using Suc.prems(2) Cons by (intro bytes_xor_into bytes_scale) simp_all
    then show ?thesis using Suc.IH[OF Suc.prems(1)] Cons by simp
  qed
qed

lemma bytes_remainder: "list_all byte msg \<Longrightarrow> list_all byte (rs_remainder msg e)"
  unfolding rs_remainder_def
  by (intro bytes_divide bytes_generator) (auto simp: list_all_iff)

lemma format_byte:
  assumes "byte b"
  shows "length (format_0b 8 (nat b)) = 8" "binary_string (format_0b 8 (nat b))"
proof -
  have "nat b < 2 ^ 8" using assms by (auto simp: byte_def)
  then have "format_0b 8 (nat b) = bits_msb 8 (nat b)" by (intro format_0b_bits) simp_all
  then show "length (format_0b 8 (nat b)) = 8" "binary_string (format_0b 8 (nat b))" by simp_all
qed

lemma generate_error_correction_codewords:
  assumes v: "version = 1 \<or> version = 2" and bs: "list_all byte data"
  shows "\<exists>ecc. generate_error_correction data version = Inr ecc
     \<and> length ecc = (if version = 1 then 7 else 10)
     \<and> (\<forall>cw\<in>set ecc. length cw = 8 \<and> binary_string cw)"
proof -
  let ?e = "if version = 1 then 7 else 10 :: nat"
  let ?ecc = "map (\<lambda>b. format_0b 8 (nat b)) (rs_remainder data ?e)"
  have "\<forall>b\<in>set (rs_remainder data ?e). byte b"
    using bytes_remainder[OF bs, of ?e] by (simp add: list_all_iff)
  then have "\<forall>cw\<in>set ?ecc. length cw = 8 \<and> binary_string cw"
    using format_byte by auto
  moreover have "length ?ecc = ?e" by simp
  ultimately show ?thesis
    using generate_error_correction_eq[OF v, of data] by blast
qed

lemma final_bits:
  assumes "v = 1 \<or> v = 2" "length cws = (if v = 1 then 19 else 34)"
    "length ecc = (if v = 1 then 7 else 10)"
    "\<forall>cw\<in>set (cws @ ecc). length cw = 8 \<and> binary_string cw"
  shows "length (concat (cws @ ecc)) = (if v = 1 then 208 else 352)"
    "binary_string (concat (cws @ ecc))"
proof -
  have "length (concat xs) = 8 * length xs" if "\<forall>cw\<in>set xs. length cw = 8" for xs :: "string list"
    using that by (induction xs) simp_all
  then have "length (concat (cws @ ecc)) = 8 * length (cws @ ecc)"
    using assms(4) by blast
  then show "length (concat (cws @ ecc)) = (if v = 1 then 208 else 352)"
    using assms(1,2,3) by auto
  show "binary_string (concat (cws @ ecc))"
    using assms(4) by (simp add: binary_string_concat)
qed

lemma square_lengths: "square n m = (map length m = replicate n n)"
proof
  assume "square n m"
  then show "map length m = replicate n n"
    by (auto simp: square_def intro: replicate_eqI)
next
  assume e: "map length m = replicate n n"
  have "length m = n" using arg_cong[OF e, of length] by simp
  moreover have "\<forall>row\<in>set m. length row = n"
  proof
    fix row assume "row \<in> set m"
    then have "length row \<in> set (map length m)" by simp
    then show "length row = n" unfolding e by simp
  qed
  ultimately show "square n m" by (simp add: square_def)
qed

lemma find_best_pattern_returns:
  assumes ne: "matrix \<noteq> []"
    and rows: "\<forall>row\<in>set matrix. length row = length matrix"
    and flen: "length function_map = length matrix"
    and frows: "\<forall>frow\<in>set function_map. length frow = length matrix"
    and reserved: "\<forall>r<length matrix. \<forall>c<length matrix.
                     (\<forall>v. matrix ! r ! c \<noteq> IntC v) \<longrightarrow> function_map ! r ! c"
  shows "\<exists>masked best. find_best_pattern matrix function_map = Inr (masked, best)
     \<and> 0 \<le> best \<and> best \<le> 7 \<and> square (length matrix) masked"
proof -
  let ?n = "length matrix"
  define mm where "mm p = masked_rows (the (MASK_CONDITION_FUNCTIONS p)) function_map matrix ?n ?n" for p
  define em where "em p = masked_rows (the (MASK_CONDITION_FUNCTIONS p)) function_map
                           (eval_matrix_base matrix) ?n ?n" for p
  define sc where "sc p = spec_penalty_total (light_reserved (mm p))" for p
  have app_m: "apply_specific_mask_pattern p matrix function_map = Inr (mm p)"
    if "0 \<le> p" "p \<le> 7" for p
    unfolding mm_def using that ne rows flen frows by (intro apply_mask_rect) simp_all
  have app_e: "apply_specific_mask_pattern p (eval_matrix_base matrix) function_map = Inr (em p)"
    if "0 \<le> p" "p \<le> 7" for p
  proof -
    have "apply_specific_mask_pattern p (eval_matrix_base matrix) function_map =
       Inr (masked_rows (the (MASK_CONDITION_FUNCTIONS p)) function_map (eval_matrix_base matrix)
             ?n (length (eval_matrix_base matrix)))"
      using that ne rows flen frows
      by (intro apply_mask_rect) (auto simp: eval_matrix_base_def)
    then show ?thesis by (simp add: em_def)
  qed
  have em_mm: "eval_matrix_base (mm p) = em p" for p
    unfolding mm_def em_def by (rule eval_matrix_base_masked[OF rows reserved])
  have mm_len: "length (mm p) = ?n" for p by (simp add: mm_def masked_rows_def)
  have mm_ne: "mm p \<noteq> []" for p using mm_len[of p] ne by auto
  have mm_rows: "\<forall>row\<in>set (mm p). length row = ?n" for p
    using rows_masked_rows[OF rows, of _ function_map ?n] by (simp add: mm_def)
  have mm_sq: "\<forall>row\<in>set (mm p). length row = length (mm p)" for p
    using mm_rows[of p] mm_len[of p] by simp
  have score: "\<exists>pl. calculate_total_penalty_score (em p) = Inr (sc p, pl)" for p
    using calculate_total_penalty_score_spec[OF mm_ne[of p] mm_sq[of p]]
    by (simp add: em_mm sc_def)
  obtain s b where pb: "pick_best sc (sc 0, 0) [1, 2, 3, 4, 5, 6, 7] = (s, b)"
    by (cases "pick_best sc (sc 0, 0) [1, 2, 3, 4, 5, 6, 7]") auto
  have props: "s = sc b \<and> (b = 0 \<or> b \<in> set [1, 2, 3, 4, 5, 6, 7]) \<and> s \<le> sc 0
      \<and> (\<forall>p\<in>set [1, 2, 3, 4, 5, 6, 7]. s \<le> sc p)
      \<and> (\<forall>p\<in>insert 0 (set [1, 2, 3, 4, 5, 6, 7]). sc p = s \<longrightarrow> b \<le> p)"
    by (rule pick_best_min[OF _ _ _ pb]) simp_all
  have "b = 0 \<or> b \<in> set [1, 2, 3, 4, 5, 6, 7]" using props by blast
  then have b07: "0 \<le> b" "b \<le> 7" by auto
  have fb: "find_best_pattern matrix function_map = Inr (mm b, b)"
    using find_best_pattern_pick[of matrix function_map em mm sc, OF app_e app_m score] pb
    by simp
  have "square ?n (mm b)" using mm_len[of b] mm_rows[of b] by (simp add: square_def)
  then show ?thesis using fb b07 by blast
qed

lemma mask_and_format_dark:
  assumes v: "version = 1 \<or> version = 2" and n: "int n = 4 * version + 17"
    and cf: "create_function_pattern_matrix version = Inr fm" and fsq: "square n fm"
    and sq: "square n m"
    and reserved: "\<forall>r<n. \<forall>c<n. (\<forall>v. m ! r ! c \<noteq> IntC v) \<longrightarrow> fm ! r ! c"
  shows "\<exists>final. mask_and_format m version = Inr final
     \<and> get_cell final (4 * version + 9) 8 = Inr (IntC 1)"
proof -
  have n21: "21 \<le> n" using v n by auto
  have ne: "m \<noteq> []" using sq n21 by (auto simp: square_def)
  have lm: "length m = n" using sq by (simp add: square_def)
  have h: "\<forall>row\<in>set m. length row = length m" "length fm = length m"
    "\<forall>frow\<in>set fm. length frow = length m"
    using sq fsq by (simp_all add: square_def)
  have r: "\<forall>r<length m. \<forall>c<length m. (\<forall>v. m ! r ! c \<noteq> IntC v) \<longrightarrow> fm ! r ! c"
    using reserved lm by simp
  from find_best_pattern_returns[OF ne h r]
  obtain masked best where fb: "find_best_pattern m fm = Inr (masked, best)"
    "0 \<le> best" "best \<le> 7" "square n masked" using lm by auto
  have "best \<in> set [0, 1, 2, 3, 4, 5, 6, 7]" using fb(2,3) by (simp) arith
  then have "case get_format_string ''01'' (format_0b 3 (nat best)) of
                    Inr fmt \<Rightarrow> (case digits_of_string fmt of
                                  Inr bits \<Rightarrow> length bits = 15 | Inl e \<Rightarrow> False)
                  | Inl e \<Rightarrow> False"
    using format_strings unfolding list_all_iff by blast
  then obtain fmt bits where fmt: "get_format_string ''01'' (format_0b 3 (nat best)) = Inr fmt"
    "digits_of_string fmt = Inr bits" "length bits = 15"
    by (auto split: sum.splits)
  let ?im = "map (map (\<lambda>cell. case cell of IntC x \<Rightarrow> IntC x | StrR \<Rightarrow> IntC 0 | NoneC \<Rightarrow> IntC 0)) masked"
  have isq: "square n ?im" using fb(4) by (auto simp: square_def)
  have vv: "1 \<le> version" "version \<le> 40" using v by auto
  from place_format_information_dark[OF isq n vv fmt(2,3)]
  obtain final where fin: "place_format_information ?im fmt (int n) = Inr (Some final)"
    "square n final" "get_cell final (4 * version + 9) 8 = Inr (IntC 1)" by blast
  have fne: "final \<noteq> []" using fin(2) n21 by (auto simp: square_def)
  have sz: "get_size_from_version version = Inr (int n)"
    using v n by (auto simp: get_size_from_version_def)
  have "mask_and_format m version = Inr final"
    unfolding mask_and_format_def
    by (simp only: cf ebind_simps fb(1) prod.case fmt(1) Let_def sz fin(1) option.case fne if_False)
  then show ?thesis using fin(3) by blast
qed

lemma placed_cells_are_bits:
  assumes cells: "set cells = {(r, c). r < n \<and> c < n \<and> \<not> fm ! r ! c}"
    and len: "length cells = length bits"
    and vals: "\<forall>k<length bits. cell_at m (cells ! k) = IntC (bit_value (bits ! k))"
  shows "\<forall>r<n. \<forall>c<n. (\<forall>v. m ! r ! c \<noteq> IntC v) \<longrightarrow> fm ! r ! c"
proof (intro allI impI)
  fix r c assume rc: "r < n" "c < n" and nv: "\<forall>v. m ! r ! c \<noteq> IntC v"
  show "fm ! r ! c"
  proof (rule ccontr)
    assume "\<not> fm ! r ! c"
    then have "(r, c) \<in> set cells" using rc cells by simp
    then obtain k where k: "k < length cells" "cells ! k = (r, c)"
      by (auto simp: in_set_conv_nth)
    then have "cell_at m (r, c) = IntC (bit_value (bits ! k))" using vals len by auto
    then show False using nv by (simp add: cell_at_def)
  qed
qed

text \<open>
  Claim C8.  For every input that \<open>encode_byte_mode\<close> encodes, with either version,
  \<open>assemble_qr_matrix\<close> returns a final matrix, and its cell in row
  \<open>4 * version + 9\<close>, column 8 (the dark module) is 1.  The last loop of
  \<open>place_format_information\<close> sets the cell in its first iteration, before it
  returns.
\<close>

theorem assemble_qr_matrix_dark_module:
  assumes "encode_byte_mode text = Inr (data_cw, version)"
  shows "\<exists>final. assemble_qr_matrix text = Some (Inr final)
     \<and> get_cell final (4 * version + 9) 8 = Inr (IntC 1)"
proof -
  note cw = encode_byte_mode_codewords[OF assms]
  have "\<forall>cw\<in>set data_cw. \<exists>x. int_base2 cw = Inr x \<and> byte x"
    using cw(3) int_base2_byte by blast
  from map_err_all[OF this] obtain ints where ints: "map_err int_base2 data_cw = Inr ints"
    "\<forall>x\<in>set ints. byte x" by blast
  have "list_all byte ints" using ints(2) by (simp add: list_all_iff)
  from generate_error_correction_codewords[OF cw(1) this]
  obtain ecc where ecc: "generate_error_correction ints version = Inr ecc"
    "length ecc = (if version = 1 then 7 else 10)"
    "\<forall>cw\<in>set ecc. length cw = 8 \<and> binary_string cw" by blast
  have all: "\<forall>cw\<in>set (data_cw @ ecc). length cw = 8 \<and> binary_string cw"
    using cw(3) ecc(3) by auto
  note fb = final_bits[OF cw(1,2) ecc(2) all]
  define bits where "bits = (if version = 2 then concat (data_cw @ ecc) @ replicate 7 CHR ''0''
                             else concat (data_cw @ ecc))"
  have bl: "length bits = (if version = 1 then 208 else 359)" and bb: "binary_string bits"
    using fb cw(1) by (auto simp: bits_def)
  have asm: "assemble_qr_matrix text =
      (case generate_qr_module bits version of
         None \<Rightarrow> None
       | Some (Inl e) \<Rightarrow> Some (Inl e)
       | Some (Inr matrix) \<Rightarrow> Some (mask_and_format matrix version))"
    unfolding assemble_qr_matrix_def bits_def
    by (simp only: assms sum.case prod.case ints(1) ecc(1) Let_def)
  from cw(1) show ?thesis
  proof
    assume v1: "version = 1"
    have l: "length bits = 208" using bl v1 by simp
    from placement_v1[OF l bb] obtain m where m:
      "place_data_bits layout_v1 21 bits = Some (Inr m)"
      "length m = 21" "\<forall>row\<in>set m. length row = 21"
      "length (data_cells 1) = length bits"
      "set (data_cells 1) = {(r, c). r < 21 \<and> c < 21 \<and> \<not> function_map_v1 ! r ! c}"
      "\<forall>k<length bits. cell_at m (data_cells 1 ! k) = IntC (bit_value (bits ! k))"
      by blast
    have g: "generate_qr_module bits version = Some (Inr m)"
      using m(1) by (simp add: v1 generate_qr_module_1)
    have sq: "square 21 m" using m(2,3) by (simp add: square_def)
    have fsq: "square 21 function_map_v1" by (simp add: square_lengths fm_shape_v1)
    have res: "\<forall>r<21. \<forall>c<21. (\<forall>v. m ! r ! c \<noteq> IntC v) \<longrightarrow> function_map_v1 ! r ! c"
      by (rule placed_cells_are_bits[OF m(5) m(4) m(6)])
    have n: "int 21 = 4 * version + 17" by (simp add: v1)
    from mask_and_format_dark[OF cw(1) n create_function_pattern_matrix_1[folded v1] fsq sq res]
    obtain final where "mask_and_format m version = Inr final"
      "get_cell final (4 * version + 9) 8 = Inr (IntC 1)" by blast
    then show ?thesis unfolding asm g by simp
  next
    assume v2: "version = 2"
    have l: "length bits = 359" using bl v2 by simp
    from placement_v2[OF l bb] obtain m where m:
      "place_data_bits layout_v2 25 bits = Some (Inr m)"
      "length m = 25" "\<forall>row\<in>set m. length row = 25"
      "length (data_cells 2) = length bits"
      "set (data_cells 2) = {(r, c). r < 25 \<and> c < 25 \<and> \<not> function_map_v2 ! r ! c}"
      "\<forall>k<length bits. cell_at m (data_cells 2 ! k) = IntC (bit_value (bits ! k))"
      by blast
    have g: "generate_qr_module bits version = Some (Inr m)"
      using m(1) by (simp add: v2 generate_qr_module_2)
    have sq: "square 25 m" using m(2,3) by (simp add: square_def)
    have fsq: "square 25 function_map_v2" by (simp add: square_lengths fm_shape_v2)
    have res: "\<forall>r<25. \<forall>c<25. (\<forall>v. m ! r ! c \<noteq> IntC v) \<longrightarrow> function_map_v2 ! r ! c"
      by (rule placed_cells_are_bits[OF m(5) m(4) m(6)])
    have n: "int 25 = 4 * version + 17" by (simp add: v2)
    from mask_and_format_dark[OF cw(1) n create_function_pattern_matrix_2[folded v2] fsq sq res]
    obtain final where "mask_and_format m version = Inr final"
      "get_cell final (4 * version + 9) 8 = Inr (IntC 1)" by blast
    then show ?thesis unfolding asm g by simp
  qed
qed

text \<open>
  The theorem of C8 at \<open>HELLO WORLD\<close> (version 1, cell (13, 8)) and at a text of 18
  letters \<open>A\<close> (version 2, cell (17, 8)).
\<close>

theorem assemble_qr_matrix_dark_module_witness:
  "(\<exists>final. assemble_qr_matrix hello = Some (Inr final)
       \<and> get_cell final 13 8 = Inr (IntC 1))
   \<and> (\<exists>final. assemble_qr_matrix (replicate 18 65) = Some (Inr final)
       \<and> get_cell final 17 8 = Inr (IntC 1))"
proof -
  have e1: "encode_byte_mode hello = Inr (hello_data_cw, 1)"
    by (simp only: hello_codewords hello_data_cw_def)
  have e2: "encode_byte_mode (replicate 18 65) = Inr (build_codewords (replicate 18 65) 34, 2)"
    by (simp add: encode_byte_mode_def encode_iso_8859_1_eq)
  show ?thesis
    using assemble_qr_matrix_dark_module[OF e1] assemble_qr_matrix_dark_module[OF e2] by simp
qed

end
